theory Spec2Isabelle
  imports Main "HOL-Library.Sublist"
begin

section \<open>Protocol constants (constants.js)\<close>

text \<open>
  JavaScript strings are modelled as \<^typ>\<open>string\<close>: one \<^typ>\<open>char\<close> per code unit,
  restricted to the code units below 256. The three marker tokens are plain ASCII.
\<close>

definition BEGIN_TOKEN :: string where
  "BEGIN_TOKEN = ''[RESPONSE_BEGIN]''"

definition FINISHED_TOKEN :: string where
  "FINISHED_TOKEN = ''[RESPONSE_FINISHED]''"

definition INCOMPLETE_TOKEN :: string where
  "INCOMPLETE_TOKEN = ''[RESPONSE_NOT_FINISHED]''"

section \<open>The regular expressions of core.js\<close>

text \<open>
  core.js builds four patterns with \<^verbatim>\<open>new RegExp\<close> from the escaped tokens
  (\<^verbatim>\<open>escapeRegExp\<close> turns the brackets of a token into literal characters).
  They use literal characters, \<^verbatim>\<open>\s\<close>, a negated character class, \<^verbatim>\<open>^\<close>,
  \<^verbatim>\<open>$\<close> (no flag is given, so they anchor at the ends of the whole input),
  grouping with alternation, and the greedy quantifiers \<^verbatim>\<open>?\<close> and \<^verbatim>\<open>*\<close>.
\<close>

datatype rx = Eps | Chr char | Ws | NotIn "char list" | Bol | Eol
  | Seq rx rx | Alt rx rx | Opt rx | Star rx

text \<open>The characters below 256 that \<^verbatim>\<open>\s\<close> (and \<^verbatim>\<open>trim\<close>) treat as white space:
  tab, line feed, vertical tab, form feed, carriage return, space, no-break space.\<close>

definition is_space :: "char \<Rightarrow> bool" where
  "is_space c \<longleftrightarrow>
     c \<in> set [CHR 0x09, CHR 0x0A, CHR 0x0B, CHR 0x0C, CHR 0x0D, CHR 0x20, CHR 0xA0]"

text \<open>
  A backtracking matcher. \<open>ms r n s\<close> matches \<open>r\<close> at the front of the rest \<open>s\<close> of an
  input of length \<open>n\<close> and lists what is left after each way to match, in the order a
  backtracking engine tries them (a greedy quantifier tries the longer match first; an
  iteration of \<^verbatim>\<open>*\<close> that consumes nothing is not repeated).
\<close>

fun ms :: "rx \<Rightarrow> nat \<Rightarrow> string \<Rightarrow> string list" where
  "ms Eps n s = [s]"
| "ms (Chr c) n s = (case s of [] \<Rightarrow> [] | x # xs \<Rightarrow> if x = c then [xs] else [])"
| "ms Ws n s = (case s of [] \<Rightarrow> [] | x # xs \<Rightarrow> if is_space x then [xs] else [])"
| "ms (NotIn cs) n s = (case s of [] \<Rightarrow> [] | x # xs \<Rightarrow> if x \<in> set cs then [] else [xs])"
| "ms Bol n s = (if length s = n then [s] else [])"
| "ms Eol n s = (if s = [] then [s] else [])"
| "ms (Seq a b) n s = concat (map (ms b n) (ms a n s))"
| "ms (Alt a b) n s = ms a n s @ ms b n s"
| "ms (Opt a) n s = ms a n s @ [s]"
| "ms (Star a) n s =
     concat (map (\<lambda>r. if length r < length s then ms (Star a) n r else []) (ms a n s)) @ [s]"

declare ms.simps(10) [simp del]

text \<open>The literal characters of an escaped token, in sequence.\<close>

definition lits :: "string \<Rightarrow> rx \<Rightarrow> rx" where
  "lits w r = foldr (\<lambda>c. Seq (Chr c)) w r"

text \<open>
  The engine tries the start positions from left to right. \<open>rx_search r n pre s\<close> is at the
  position after \<open>pre\<close>; it returns the text before the first match and the text after it.
\<close>

fun rx_search :: "rx \<Rightarrow> nat \<Rightarrow> string \<Rightarrow> string \<Rightarrow> (string \<times> string) option" where
  "rx_search r n pre s =
     (case ms r n s of
        m # _ \<Rightarrow> Some (pre, m)
      | [] \<Rightarrow> (case s of [] \<Rightarrow> None | x # xs \<Rightarrow> rx_search r n (pre @ [x]) xs))"

declare rx_search.simps [simp del]

text \<open>\<^verbatim>\<open>regex.test(text)\<close> and \<^verbatim>\<open>text.replace(regex, "")\<close> (no \<^verbatim>\<open>g\<close> flag: the first
  match only).\<close>

definition rx_test :: "rx \<Rightarrow> string \<Rightarrow> bool" where
  "rx_test r s \<longleftrightarrow> rx_search r (length s) [] s \<noteq> None"

definition rx_remove :: "rx \<Rightarrow> string \<Rightarrow> string" where
  "rx_remove r s =
     (case rx_search r (length s) [] s of None \<Rightarrow> s | Some (pre, rest) \<Rightarrow> pre @ rest)"

section \<open>Completion detector (core.js)\<close>

text \<open>\<^verbatim>\<open>new RegExp(`${escapedFinishedToken}\\s*$`)\<close>\<close>

definition isResponseComplete :: "string \<Rightarrow> bool" where
  "isResponseComplete text = rx_test (lits FINISHED_TOKEN (Seq (Star Ws) Eol)) text"

text \<open>\<^verbatim>\<open>new RegExp(`^${escapedBeginToken}($|[^\`\. ])`)\<close>: in the template literal the
  class is a backtick, a period and a space.\<close>

definition isFormalResponseStarted :: "string \<Rightarrow> bool" where
  "isFormalResponseStarted text =
     rx_test (Seq Bol (lits BEGIN_TOKEN (Alt Eol (NotIn [CHR 0x60, CHR ''.'', CHR '' ''])))) text"

text \<open>The two patterns of \<^verbatim>\<open>cleanFinalText\<close>:
  \<^verbatim>\<open>new RegExp(`^\\s?${escapedBeginToken}\\s?`)\<close> and
  \<^verbatim>\<open>new RegExp(`\\s?${escapedFinishedToken}\\s*$`)\<close>.\<close>

definition begin_rx :: rx where
  "begin_rx = Seq Bol (Seq (Opt Ws) (lits BEGIN_TOKEN (Opt Ws)))"

definition finish_rx :: rx where
  "finish_rx = Seq (Opt Ws) (lits FINISHED_TOKEN (Seq (Star Ws) Eol))"

text \<open>\<^verbatim>\<open>cleanFinalText(text, cleanBeginToken = true, cleanFinishToken = true)\<close>\<close>

definition cleanFinalText :: "string \<Rightarrow> bool \<Rightarrow> bool \<Rightarrow> string" where
  "cleanFinalText text cleanBeginToken cleanFinishToken =
     (let cleanedText = text;
          cleanedText =
            (if cleanBeginToken then rx_remove begin_rx cleanedText else cleanedText);
          cleanedText =
            (if cleanFinishToken then rx_remove finish_rx cleanedText else cleanedText)
      in cleanedText)"

text \<open>\<^verbatim>\<open>String.prototype.includes\<close>.\<close>

definition str_includes :: "string \<Rightarrow> string \<Rightarrow> bool" where
  "str_includes s w \<longleftrightarrow> sublist w s"

text \<open>Auxiliary notions for stating properties of the detector: a separator that is empty
  or one white-space character, a text of white space only, a text that has the finish
  token at its front and white space only after it, and a text without one leading
  white-space character.\<close>

definition opt_space :: "string \<Rightarrow> bool" where
  "opt_space m = (case m of [] \<Rightarrow> True | [w] \<Rightarrow> is_space w | _ \<Rightarrow> False)"

definition all_space :: "string \<Rightarrow> bool" where
  "all_space s = list_all is_space s"

definition fin_here :: "string \<Rightarrow> bool" where
  "fin_here s \<longleftrightarrow>
     prefix FINISHED_TOKEN s \<and> list_all is_space (drop (length FINISHED_TOKEN) s)"

definition strip1 :: "string \<Rightarrow> string" where
  "strip1 s = (case s of [] \<Rightarrow> [] | c # cs \<Rightarrow> if is_space c then cs else s)"

section \<open>Data model (the JSON bodies that core.js and handlers.js read and write)\<close>

text \<open>
  A part of a content entry. \<open>ptext\<close> is the \<^verbatim>\<open>text\<close> property (\<open>None\<close> when the part has
  none), \<open>thought\<close> the truth value of the \<^verbatim>\<open>thought\<close> flag (a boolean in the upstream's
  payloads), \<open>functionCall\<close> the function-call payload, which the code only tests for
  presence. Other properties of a part are never read.
\<close>

record part =
  ptext :: "string option"
  thought :: bool
  functionCall :: "string option"

record content =
  role :: "string option"
  parts :: "part list option"

record instruction =
  si_parts :: "part list option"

text \<open>
  The request body. \<open>contents\<close> and \<open>parts\<close> are \<open>None\<close> when the property is not an array.
  \<open>thinkingBudget\<close> stands for \<^verbatim>\<open>generationConfig?.thinkingConfig?.thinkingBudget\<close> and
  \<open>responseSchema\<close> for \<^verbatim>\<open>generationConfig.responseSchema\<close> (\<open>None\<close>: undefined).
\<close>

record body =
  systemInstruction :: "instruction option"
  system_instruction :: "instruction option"
  contents :: "content list option"
  thinkingBudget :: "int option"
  responseSchema :: "string option"

text \<open>The configuration of utils.js (\<^verbatim>\<open>parseConfig\<close>); the upstream base address and the
  debug flag only reach the address of the upstream call and the log.\<close>

record config =
  maxRetries :: int
  startOfThought :: string

text \<open>The three instruction texts of constants.js. Their wording is long and no operation
  inspects it, so they are parameters of the model.\<close>

record prompts =
  BEGIN_TOKEN_PROMPT :: string
  FINISH_TOKEN_PROMPT :: string
  REMINDER_PROMPT :: string


definition RETRYABLE_STATUS_CODES :: "int list" where
  "RETRYABLE_STATUS_CODES = [503, 403, 429]"

definition FATAL_STATUS_CODES :: "int list" where
  "FATAL_STATUS_CODES = [500]"

definition MAX_FETCH_RETRIES :: int where
  "MAX_FETCH_RETRIES = 3"

definition MAX_NON_RETRYABLE_STATUS_RETRIES :: int where
  "MAX_NON_RETRYABLE_STATUS_RETRIES = 3"

text \<open>\<^verbatim>\<open>{ text: s }\<close>, the truthiness of \<^verbatim>\<open>part.text\<close> (a non-empty string),
  \<^verbatim>\<open>part.hasOwnProperty('text')\<close>, and the text read for appending
  (\<^verbatim>\<open>part.text || ""\<close>).\<close>

definition text_part :: "string \<Rightarrow> part" where
  "text_part s = \<lparr>ptext = Some s, thought = False, functionCall = None\<rparr>"

definition text_truthy :: "part \<Rightarrow> bool" where
  "text_truthy p = (case ptext p of None \<Rightarrow> False | Some s \<Rightarrow> s \<noteq> [])"

definition has_text :: "part \<Rightarrow> bool" where
  "has_text p = (ptext p \<noteq> None)"

definition the_text :: "part \<Rightarrow> string" where
  "the_text p = (case ptext p of None \<Rightarrow> [] | Some s \<Rightarrow> s)"

text \<open>The two index loops of core.js: \<^verbatim>\<open>for (i = 0; i < n; i++)\<close> and
  \<^verbatim>\<open>for (i = n - 1; i >= 0; i--)\<close>, each leaving at the first hit; \<open>None\<close> is the
  index \<^verbatim>\<open>-1\<close>.\<close>

fun first_index :: "('a \<Rightarrow> bool) \<Rightarrow> 'a list \<Rightarrow> nat option" where
  "first_index P [] = None"
| "first_index P (x # xs) = (if P x then Some 0 else map_option Suc (first_index P xs))"

fun scan_down :: "('a \<Rightarrow> bool) \<Rightarrow> 'a list \<Rightarrow> nat \<Rightarrow> nat option" where
  "scan_down P xs 0 = None"
| "scan_down P xs (Suc i) = (if P (xs ! i) then Some i else scan_down P xs i)"

definition last_index :: "('a \<Rightarrow> bool) \<Rightarrow> 'a list \<Rightarrow> nat option" where
  "last_index P xs = scan_down P xs (length xs)"

section \<open>Request mutator (core.js)\<close>

definition normalizeSystemInstruction :: "body \<Rightarrow> body" where
  "normalizeSystemInstruction b =
     (if systemInstruction b \<noteq> None \<and> system_instruction b \<noteq> None
      then b\<lparr>system_instruction := None\<rparr>
      else if systemInstruction b = None \<and> system_instruction b \<noteq> None
      then b\<lparr>systemInstruction := system_instruction b, system_instruction := None\<rparr>
      else b)"

text \<open>\<^verbatim>\<open>String.prototype.trim() !== ""\<close>\<close>

definition trim_nonempty :: "string \<Rightarrow> bool" where
  "trim_nonempty s \<longleftrightarrow> \<not> list_all is_space s"

definition merge_prompt :: "string \<Rightarrow> instruction option \<Rightarrow> instruction" where
  "merge_prompt promptToInject si =
     (let tokenPromptPart = text_part promptToInject in
      case si of
        None \<Rightarrow> \<lparr>si_parts = Some [tokenPromptPart]\<rparr>
      | Some i \<Rightarrow>
          (case si_parts i of
             None \<Rightarrow> i\<lparr>si_parts := Some [tokenPromptPart]\<rparr>
           | Some [] \<Rightarrow> i\<lparr>si_parts := Some [tokenPromptPart]\<rparr>
           | Some (p # ps) \<Rightarrow>
               if \<not> text_truthy p then i\<lparr>si_parts := Some (tokenPromptPart # ps)\<rparr>
               else i\<lparr>si_parts :=
                      Some (p\<lparr>ptext := Some (the_text p @ ''\<newline>\<newline>---\<newline>'' @ promptToInject)\<rparr> # ps)\<rparr>))"

definition inject_begin_token :: "part list \<Rightarrow> part list" where
  "inject_begin_token ps =
     (case first_index text_truthy ps of
        None \<Rightarrow> ps
      | Some i \<Rightarrow> ps[i := (ps ! i)\<lparr>ptext := Some (BEGIN_TOKEN @ ''\<newline>'' @ the_text (ps ! i))\<rparr>])"

definition inject_finished_token :: "part list \<Rightarrow> part list" where
  "inject_finished_token ps =
     (case last_index text_truthy ps of
        None \<Rightarrow> ps
      | Some i \<Rightarrow> ps[i := (ps ! i)\<lparr>ptext := Some (the_text (ps ! i) @ ''\<newline>'' @ FINISHED_TOKEN)\<rparr>])"

definition mark_content :: "bool \<Rightarrow> bool \<Rightarrow> content \<Rightarrow> content" where
  "mark_content injectBeginTokenPrompt injectFinishTokenPrompt c =
     (case parts c of
        None \<Rightarrow> c
      | Some ps \<Rightarrow>
          (let ps = (if injectBeginTokenPrompt \<and> role c = Some ''model''
                     then inject_begin_token ps else ps);
               ps = (if injectFinishTokenPrompt \<and> role c = Some ''model''
                     then inject_finished_token ps else ps)
           in c\<lparr>parts := Some ps\<rparr>))"

definition add_reminder :: "prompts \<Rightarrow> config \<Rightarrow> bool \<Rightarrow> content list \<Rightarrow> content list" where
  "add_reminder pr cfg injectBeginTokenPrompt cs =
     (if cs = [] then cs
      else
        let lastContent = last cs in
        case parts lastContent of
          None \<Rightarrow> cs
        | Some ps \<Rightarrow>
            if role lastContent = Some ''user'' \<and> ps \<noteq> [] then
              (case last_index (\<lambda>p. text_truthy p \<and> trim_nonempty (the_text p)) ps of
                 None \<Rightarrow> cs
               | Some i \<Rightarrow>
                   (let ps' = ps[i := (ps ! i)\<lparr>ptext :=
                                 Some (the_text (ps ! i) @ ''\<newline>\<newline>---\<newline>'' @ REMINDER_PROMPT pr)\<rparr>];
                        cs' = butlast cs @ [lastContent\<lparr>parts := Some ps'\<rparr>]
                    in if injectBeginTokenPrompt
                       then cs' @ [\<lparr>role = Some ''model'',
                                    parts = Some [text_part (startOfThought cfg)]\<rparr>]
                       else cs'))
            else cs)"

definition injectSystemPrompts :: "prompts \<Rightarrow> body \<Rightarrow> config \<Rightarrow> bool \<Rightarrow> bool \<Rightarrow> body" where
  "injectSystemPrompts pr b cfg injectBeginTokenPrompt injectFinishTokenPrompt =
     (let newBody = normalizeSystemInstruction b;
          promptToInject =
            (if injectBeginTokenPrompt \<and> injectFinishTokenPrompt
             then BEGIN_TOKEN_PROMPT pr @ FINISH_TOKEN_PROMPT pr
             else if injectBeginTokenPrompt then BEGIN_TOKEN_PROMPT pr
             else if injectFinishTokenPrompt then FINISH_TOKEN_PROMPT pr
             else [])
      in if promptToInject = [] then newBody
         else
           let newBody = newBody\<lparr>systemInstruction :=
                  Some (merge_prompt promptToInject (systemInstruction newBody))\<rparr>
           in case contents newBody of
                None \<Rightarrow> newBody
              | Some cs \<Rightarrow>
                  newBody\<lparr>contents :=
                    Some (add_reminder pr cfg injectBeginTokenPrompt
                            (map (mark_content injectBeginTokenPrompt injectFinishTokenPrompt) cs))\<rparr>)"

text \<open>The content list after \<^verbatim>\<open>if (!Array.isArray(newBody.contents)) newBody.contents = []\<close>.\<close>

definition contents_list :: "body \<Rightarrow> content list" where
  "contents_list b = (case contents b of None \<Rightarrow> [] | Some cs \<Rightarrow> cs)"

definition buildRetryRequest :: "body \<Rightarrow> string \<Rightarrow> body" where
  "buildRetryRequest currentBody newResponseText =
     (let newBody = normalizeSystemInstruction currentBody;
          cs = contents_list newBody
      in if cs \<noteq> [] \<and> role (last cs) = Some ''model'' then
           let lastContent = last cs;
               ps' =
                 (case parts lastContent of
                    None \<Rightarrow> [text_part newResponseText]
                  | Some ps \<Rightarrow>
                      if ps = [] then [text_part newResponseText]
                      else
                        (case last_index has_text ps of
                           Some i \<Rightarrow>
                             ps[i := (ps ! i)\<lparr>ptext := Some (the_text (ps ! i) @ newResponseText)\<rparr>]
                         | None \<Rightarrow> ps @ [text_part newResponseText]))
           in newBody\<lparr>contents := Some (butlast cs @ [lastContent\<lparr>parts := Some ps'\<rparr>])\<rparr>
         else
           newBody\<lparr>contents :=
             Some (cs @ [\<lparr>role = Some ''model'', parts = Some [text_part newResponseText]\<rparr>])\<rparr>)"


section \<open>Non-streaming retry loop (handlers.js, \<^verbatim>\<open>handleNonStreamingRequest\<close>)\<close>

text \<open>
  What one upstream call gives: an exception of \<^verbatim>\<open>fetch\<close> or of reading the body (the
  \<^verbatim>\<open>catch\<close> branch), a response that is not \<^verbatim>\<open>ok\<close> with its status and body text, or
  an \<^verbatim>\<open>ok\<close> response with its JSON. Of the JSON the loop reads
  \<^verbatim>\<open>candidates?.[0]?.content?.parts || []\<close>; the rest is carried along unread.
\<close>

record response =
  resp_parts :: "part list"
  resp_other :: string

datatype upstream_result =
    Fetch_failed string
  | Http_error int string
  | Http_ok response

text \<open>
  What the handler returns: the request forwarded untouched (not a target model, or a
  structured-output request), the upstream JSON as it came (a function call), the upstream
  JSON with its parts replaced, the error envelope of \<^verbatim>\<open>jsonError\<close>, or the best-effort
  body built after the loop. \<open>reply_status\<close> is the HTTP status of each.
\<close>

datatype reply =
    Proxied body
  | Forwarded response
  | Rebuilt response
  | Json_error int string string
  | Max_retries "part list" string

fun reply_status :: "reply \<Rightarrow> int option" where
  "reply_status (Proxied b) = None"
| "reply_status (Forwarded r) = Some 200"
| "reply_status (Rebuilt r) = Some 200"
| "reply_status (Json_error status message details) = Some status"
| "reply_status (Max_retries ps finishReason) = Some 200"

fun reply_parts :: "reply \<Rightarrow> part list" where
  "reply_parts (Proxied b) = []"
| "reply_parts (Forwarded r) = resp_parts r"
| "reply_parts (Rebuilt r) = resp_parts r"
| "reply_parts (Json_error status message details) = []"
| "reply_parts (Max_retries ps finishReason) = ps"

text \<open>The loop that looks for a part with a function call.\<close>

definition anyFunctionCall :: "part list \<Rightarrow> bool" where
  "anyFunctionCall ps = list_ex (\<lambda>p. functionCall p \<noteq> None) ps"

record nstate =
  thoughtAccumulatedText :: string
  formalAccumulatedText :: string
  isThoughtFinished :: bool

text \<open>The body of the loop \<^verbatim>\<open>for (const part of parts)\<close> that accumulates text.\<close>

definition accumulate_part :: "nstate \<Rightarrow> part \<Rightarrow> nstate" where
  "accumulate_part st p =
     (if text_truthy p \<and> \<not> thought p then
        if \<not> isThoughtFinished st then
          if isFormalResponseStarted (the_text p)
          then st\<lparr>isThoughtFinished := True,
                  formalAccumulatedText := formalAccumulatedText st @ the_text p\<rparr>
          else st\<lparr>thoughtAccumulatedText := thoughtAccumulatedText st @ the_text p\<rparr>
        else st\<lparr>formalAccumulatedText := formalAccumulatedText st @ the_text p\<rparr>
      else st)"

definition accumulate_parts :: "nstate \<Rightarrow> part list \<Rightarrow> nstate" where
  "accumulate_parts st ps = foldl accumulate_part st ps"

definition thought_part :: "string \<Rightarrow> part" where
  "thought_part s = \<lparr>ptext = Some s, thought = True, functionCall = None\<rparr>"

text \<open>The parts of the two bodies the handler builds itself.\<close>

definition complete_parts :: "nstate \<Rightarrow> part list" where
  "complete_parts st =
     [thought_part (thoughtAccumulatedText st),
      text_part (cleanFinalText (formalAccumulatedText st) True True)]"

definition exhausted_parts :: "nstate \<Rightarrow> part list" where
  "exhausted_parts st =
     (if thoughtAccumulatedText st \<noteq> [] then [thought_part (thoughtAccumulatedText st)] else [])
     @ [text_part (cleanFinalText (formalAccumulatedText st) True True
                   @ ''\<newline>'' @ INCOMPLETE_TOKEN)]"

text \<open>
  The loop \<^verbatim>\<open>while (attempts <= config.maxRetries)\<close>. \<open>fetch k b\<close> is what the \<open>k\<close>-th
  upstream call, sent with the body \<open>b\<close>, gives. The result is the reply and the number of
  upstream calls made.
\<close>

function nonstream_loop ::
  "config \<Rightarrow> (int \<Rightarrow> body \<Rightarrow> upstream_result) \<Rightarrow> int \<Rightarrow> body \<Rightarrow> nstate \<Rightarrow> reply \<times> int"
where
  "nonstream_loop cfg fetch attempts currentRequestBody st =
     (if attempts \<le> maxRetries cfg then
        (case fetch (attempts + 1) currentRequestBody of
           Http_ok responseJson \<Rightarrow>
             if anyFunctionCall (resp_parts responseJson)
             then (Forwarded responseJson, attempts + 1)
             else
               (let st' = accumulate_parts st (resp_parts responseJson) in
                if isThoughtFinished st' \<and> isResponseComplete (formalAccumulatedText st')
                then (Rebuilt (responseJson\<lparr>resp_parts := complete_parts st'\<rparr>), attempts + 1)
                else nonstream_loop cfg fetch (attempts + 1)
                       (buildRetryRequest currentRequestBody
                          (thoughtAccumulatedText st' @ formalAccumulatedText st'))
                       st')
         | Http_error status errorBody \<Rightarrow>
             if status \<in> set FATAL_STATUS_CODES
             then (Json_error status ''Upstream API returned a fatal error.'' errorBody,
                   attempts + 1)
             else if attempts + 1 >
                     (if status \<in> set RETRYABLE_STATUS_CODES then maxRetries cfg
                      else MAX_NON_RETRYABLE_STATUS_RETRIES)
             then (Json_error status ''Upstream API error after max retries.'' errorBody,
                   attempts + 1)
             else nonstream_loop cfg fetch (attempts + 1) currentRequestBody st
         | Fetch_failed message \<Rightarrow>
             if attempts + 1 > MAX_FETCH_RETRIES
             then (Json_error 500 ''Internal Server Error after max retries.'' message,
                   attempts + 1)
             else nonstream_loop cfg fetch (attempts + 1) currentRequestBody st)
      else (Max_retries (exhausted_parts st) ''MAX_RETRIES'', attempts))"
  by pat_completeness auto
termination
  by (relation "measure (\<lambda>(cfg, fetch, attempts, b, st). nat (maxRetries cfg + 1 - attempts))")
     auto

declare nonstream_loop.simps [simp del]




section \<open>Sample inputs\<close>

text \<open>Small concrete values at which the theorems below are instantiated.\<close>

definition sample_parts :: "part list" where
  "sample_parts =
     [text_part ''par'', \<lparr>ptext = None, thought = False, functionCall = Some ''f''\<rparr>]"

definition sample_user_body :: body where
  "sample_user_body =
     \<lparr>systemInstruction = None, system_instruction = None,
      contents = Some [\<lparr>role = Some ''user'', parts = Some [text_part ''hi'']\<rparr>],
      thinkingBudget = None, responseSchema = None\<rparr>"

definition sample_model_body :: body where
  "sample_model_body =
     \<lparr>systemInstruction = None, system_instruction = None,
      contents = Some [\<lparr>role = Some ''user'', parts = Some [text_part ''hi'']\<rparr>,
                       \<lparr>role = Some ''model'', parts = Some sample_parts\<rparr>],
      thinkingBudget = None, responseSchema = None\<rparr>"

section \<open>Notions for stating properties of the non-streaming loop\<close>

text \<open>
  \<open>never_completes\<close> follows the loop and says of the upstream what the run sees of it:
  every call the loop makes returns an \<^verbatim>\<open>ok\<close> response that carries no function call and
  after which the accumulated text does not pass the completion test.
\<close>

function never_completes ::
  "config \<Rightarrow> (int \<Rightarrow> body \<Rightarrow> upstream_result) \<Rightarrow> int \<Rightarrow> body \<Rightarrow> nstate \<Rightarrow> bool"
where
  "never_completes cfg fetch attempts currentRequestBody st =
     (if attempts \<le> maxRetries cfg then
        (case fetch (attempts + 1) currentRequestBody of
           Http_ok responseJson \<Rightarrow>
             \<not> anyFunctionCall (resp_parts responseJson)
             \<and> (let st' = accumulate_parts st (resp_parts responseJson) in
                \<not> (isThoughtFinished st' \<and> isResponseComplete (formalAccumulatedText st'))
                \<and> never_completes cfg fetch (attempts + 1)
                      (buildRetryRequest currentRequestBody
                         (thoughtAccumulatedText st' @ formalAccumulatedText st'))
                      st')
         | Http_error status errorBody \<Rightarrow> False
         | Fetch_failed message \<Rightarrow> False)
      else True)"
  by pat_completeness auto
termination
  by (relation "measure (\<lambda>(cfg, fetch, attempts, b, st). nat (maxRetries cfg + 1 - attempts))")
     auto

declare never_completes.simps [simp del]

text \<open>
  \<open>responses\<close> follows the loop and lists the \<^verbatim>\<open>ok\<close> responses it receives, in order, up to
  the first call that fails. The next three notions say in terms of the parts received what
  text there is to accumulate: the texts of the text parts not flagged as thought; the
  thought text, which is the text so far followed (while the thought phase lasts) by the
  texts before the first one that starts the formal answer; and the formal text, which is
  the text so far followed by the texts from that one on.
\<close>

function responses ::
  "config \<Rightarrow> (int \<Rightarrow> body \<Rightarrow> upstream_result) \<Rightarrow> int \<Rightarrow> body \<Rightarrow> nstate \<Rightarrow> response list"
where
  "responses cfg fetch attempts currentRequestBody st =
     (if attempts \<le> maxRetries cfg then
        (case fetch (attempts + 1) currentRequestBody of
           Http_ok responseJson \<Rightarrow>
             (let st' = accumulate_parts st (resp_parts responseJson) in
              responseJson #
              responses cfg fetch (attempts + 1)
                (buildRetryRequest currentRequestBody
                   (thoughtAccumulatedText st' @ formalAccumulatedText st'))
                st')
         | Http_error status errorBody \<Rightarrow> []
         | Fetch_failed message \<Rightarrow> [])
      else [])"
  by pat_completeness auto
termination
  by (relation "measure (\<lambda>(cfg, fetch, attempts, b, st). nat (maxRetries cfg + 1 - attempts))")
     auto

declare responses.simps [simp del]

definition unflagged_texts :: "part list \<Rightarrow> string list" where
  "unflagged_texts ps = map the_text (filter (\<lambda>p. text_truthy p \<and> \<not> thought p) ps)"

definition thought_text_of :: "nstate \<Rightarrow> part list \<Rightarrow> string" where
  "thought_text_of st ps =
     thoughtAccumulatedText st
     @ (if isThoughtFinished st then []
        else concat (takeWhile (\<lambda>t. \<not> isFormalResponseStarted t) (unflagged_texts ps)))"

definition formal_text_of :: "nstate \<Rightarrow> part list \<Rightarrow> string" where
  "formal_text_of st ps =
     formalAccumulatedText st
     @ (if isThoughtFinished st then concat (unflagged_texts ps)
        else concat (dropWhile (\<lambda>t. \<not> isFormalResponseStarted t) (unflagged_texts ps)))"

text \<open>
  \<open>retext f\<close> replaces the text of every thought-flagged part of an upstream response by
  \<open>f\<close> of it and leaves everything else as it is; \<open>retext_result\<close> does so in the result of
  an upstream call, \<open>retext_reply\<close> in a reply that hands an upstream response on as it came.
\<close>

definition retext_part :: "(string \<Rightarrow> string) \<Rightarrow> part \<Rightarrow> part" where
  "retext_part f p = (if thought p then p\<lparr>ptext := map_option f (ptext p)\<rparr> else p)"

definition retext :: "(string \<Rightarrow> string) \<Rightarrow> response \<Rightarrow> response" where
  "retext f r = r\<lparr>resp_parts := map (retext_part f) (resp_parts r)\<rparr>"

fun retext_result :: "(string \<Rightarrow> string) \<Rightarrow> upstream_result \<Rightarrow> upstream_result" where
  "retext_result f (Http_ok r) = Http_ok (retext f r)"
| "retext_result f (Http_error status errorBody) = Http_error status errorBody"
| "retext_result f (Fetch_failed message) = Fetch_failed message"

fun retext_reply :: "(string \<Rightarrow> string) \<Rightarrow> reply \<Rightarrow> reply" where
  "retext_reply f (Forwarded r) = Forwarded (retext f r)"
| "retext_reply f (Proxied b) = Proxied b"
| "retext_reply f (Rebuilt r) = Rebuilt r"
| "retext_reply f (Json_error status message details) = Json_error status message details"
| "retext_reply f (Max_retries ps finishReason) = Max_retries ps finishReason"

text \<open>A sample upstream: every call returns the same \<^verbatim>\<open>ok\<close> response with one
  thought-flagged part and one plain text part, and the finish token never comes.\<close>

definition sample_response :: response where
  "sample_response =
     \<lparr>resp_parts = [thought_part ''hidden'', text_part ''[RESPONSE_BEGIN]\<newline>partial answer''],
      resp_other = ''{}''\<rparr>"

definition sample_fetch :: "int \<Rightarrow> body \<Rightarrow> upstream_result" where
  "sample_fetch k b = Http_ok sample_response"

definition sample_state :: nstate where
  "sample_state =
     \<lparr>thoughtAccumulatedText = ''Here is a'', formalAccumulatedText = [],
      isThoughtFinished = False\<rparr>"

definition sample_config :: config where
  "sample_config = \<lparr>maxRetries = 0, startOfThought = ''Here is a''\<rparr>"

section \<open>Part classifier (core.js, \<^verbatim>\<open>parseParts\<close>)\<close>

record parsed_parts =
  thoughtParts :: "part list"
  responseText :: string
  pp_functionCall :: "string option"
  hasThought :: bool
  hasFunctionCall :: bool

definition parse_step :: "parsed_parts \<Rightarrow> part \<Rightarrow> parsed_parts" where
  "parse_step result p =
     (if thought p \<and> text_truthy p
      then result\<lparr>thoughtParts := thoughtParts result @ [p], hasThought := True\<rparr>
      else if text_truthy p \<and> \<not> thought p
      then result\<lparr>responseText := responseText result @ the_text p\<rparr>
      else if functionCall p \<noteq> None
      then result\<lparr>pp_functionCall := functionCall p, hasFunctionCall := True\<rparr>
      else result)"

definition parseParts :: "part list \<Rightarrow> parsed_parts" where
  "parseParts ps =
     foldl parse_step
       \<lparr>thoughtParts = [], responseText = [], pp_functionCall = None,
        hasThought = False, hasFunctionCall = False\<rparr> ps"

section \<open>Streaming reassembly engine (handlers.js, \<^verbatim>\<open>handleStreamingRequest\<close>)\<close>

text \<open>
  The payload of one event after \<^verbatim>\<open>JSON.parse\<close>. Of it the engine reads and writes
  \<^verbatim>\<open>candidates[0].content.parts\<close> and writes \<^verbatim>\<open>candidates[0].finishReason\<close>; the rest is
  carried along. \<open>No_content\<close>: there is no \<^verbatim>\<open>candidates[0].content\<close> object; \<open>No_parts\<close>:
  there is one, and its \<^verbatim>\<open>parts\<close> is not an array. Payloads that parse to something other
  than an object are outside the model. \<^verbatim>\<open>JSON.parse\<close> itself is a parameter
  \<open>parse\<close> of the engine (\<open>None\<close>: it throws).
\<close>

datatype content_shape = No_content | No_parts | Parts "part list"

record event_data =
  ev_content :: content_shape
  finishReason :: "string option"
  ev_other :: string

text \<open>\<^verbatim>\<open>data?.candidates?.[0]?.content?.parts || []\<close>\<close>

definition ev_parts :: "event_data \<Rightarrow> part list" where
  "ev_parts d = (case ev_content d of Parts ps \<Rightarrow> ps | _ \<Rightarrow> [])"

text \<open>
  A line held in \<^verbatim>\<open>linesBuffer\<close>: the upstream line as it came (with the payload
  \<^verbatim>\<open>JSON.parse\<close> reads from it, which the engine parses again when it needs it), or
  \<^verbatim>\<open>`data: ${JSON.stringify(data)}`\<close> for a payload the engine changed.
\<close>

datatype stored_line = Raw string event_data | Json event_data

fun stored_data :: "stored_line \<Rightarrow> event_data" where
  "stored_data (Raw line d) = d"
| "stored_data (Json d) = d"

record line_obj =
  rawLine :: stored_line
  isTransitionLine :: bool
  lo_text :: string

text \<open>
  What the engine writes to the caller: bytes as they are (\<open>Wire\<close>); an upstream line
  that parsed, followed by a blank line (\<open>Wire_event\<close>, with the payload the line parses
  to); an event \<^verbatim>\<open>`data: ${JSON.stringify(d)}\n\n`\<close> (\<open>Wire_data\<close>); or the frame
  \<^verbatim>\<open>`event: error\ndata: ${JSON.stringify({error: {code, message, details}})}\n\n`\<close>.
\<close>

datatype wire =
    Wire string
  | Wire_event string event_data
  | Wire_data event_data
  | Wire_error int string string

fun write_line :: "stored_line \<Rightarrow> wire" where
  "write_line (Raw line d) = Wire_event line d"
| "write_line (Json d) = Wire_data d"

text \<open>The variables of one attempt, and \<open>thoughtFinished\<close> for \<^verbatim>\<open>isThoughtFinished\<close>, which
  lives across the attempts; \<open>written\<close> collects the writes in order.\<close>

record sstate =
  thoughtFinished :: bool
  accumulatedTextThisAttempt :: string
  hasFunctionCallInStream :: bool
  passthroughMode :: bool
  lineBuffer :: string
  textBuffer :: string
  linesBuffer :: "line_obj list"
  written :: "wire list"

definition LOOKAHEAD_SIZE :: nat where
  "LOOKAHEAD_SIZE = length FINISHED_TOKEN + 4"

text \<open>\<^verbatim>\<open>String.prototype.trim\<close>\<close>

definition trim :: "string \<Rightarrow> string" where
  "trim s = rev (dropWhile is_space (rev (dropWhile is_space s)))"

text \<open>\<^verbatim>\<open>processableString.split(/\r?\n\r?\n/)\<close>: the pieces between the successive leftmost
  matches of the separator.\<close>

definition event_sep_rx :: rx where
  "event_sep_rx =
     Seq (Opt (Chr (CHR 0x0D))) (Seq (Chr (CHR 0x0A)) (Seq (Opt (Chr (CHR 0x0D))) (Chr (CHR 0x0A))))"

function rx_split :: "rx \<Rightarrow> string \<Rightarrow> string list" where
  "rx_split r s =
     (case rx_search r (length s) [] s of
        None \<Rightarrow> [s]
      | Some (pre, rest) \<Rightarrow> if length rest < length s then pre # rx_split r rest else [s])"
  by pat_completeness auto
termination
  by (relation "measure (\<lambda>(r, s). length s)") auto

declare rx_split.simps [simp del]

text \<open>The second \<^verbatim>\<open>try\<close> block of the line loop: drop the parts flagged as thought, flag
  every remaining text part as thought while the thought phase lasts, and store the
  changed payload only if something changed.\<close>

definition rewrite_line :: "bool \<Rightarrow> string \<Rightarrow> event_data \<Rightarrow> stored_line" where
  "rewrite_line finished line d =
     (case ev_content d of
        Parts ps \<Rightarrow>
          (let processedParts = filter (\<lambda>p. \<not> thought p) ps;
               wasModified = (length processedParts < length ps);
               markedAsThought = (\<not> finished \<and> list_ex text_truthy processedParts);
               processedParts =
                 (if \<not> finished
                  then map (\<lambda>p. if text_truthy p then p\<lparr>thought := True\<rparr> else p) processedParts
                  else processedParts)
           in if wasModified \<or> markedAsThought
              then Json (d\<lparr>ev_content := Parts processedParts\<rparr>)
              else Raw line d)
      | _ \<Rightarrow> Raw line d)"

text \<open>The body of \<^verbatim>\<open>for (const line of lines)\<close>.\<close>

definition process_line :: "(string \<Rightarrow> event_data option) \<Rightarrow> sstate \<Rightarrow> string \<Rightarrow> sstate" where
  "process_line parse st line =
     (if \<not> prefix ''data:'' line then
        (if line \<noteq> [] then st\<lparr>written := written st @ [Wire (line @ ''\<newline>\<newline>'')]\<rparr> else st)
      else
        let jsonStr = trim (drop 5 line) in
        if jsonStr = [] then st
        else
          case parse jsonStr of
            None \<Rightarrow> st\<lparr>written := written st @ [Wire (line @ ''\<newline>\<newline>'')]\<rparr>
          | Some d \<Rightarrow>
              (let parsedParts = parseParts (ev_parts d);
                   st = (if hasFunctionCall parsedParts
                         then st\<lparr>hasFunctionCallInStream := True\<rparr> else st)
               in if hasThought parsedParts \<and> responseText parsedParts = []
                     \<and> \<not> hasFunctionCall parsedParts
                  then st
                  else if hasFunctionCallInStream st \<and> \<not> passthroughMode st then
                    (let st = (if linesBuffer st \<noteq> []
                               then st\<lparr>written :=
                                         written st @ map (\<lambda>lo. write_line (rawLine lo)) (linesBuffer st),
                                       linesBuffer := [], textBuffer := []\<rparr>
                               else st)
                     in st\<lparr>written := written st @ [Wire_event line d],
                            passthroughMode := True\<rparr>)
                  else
                    (let rtext = responseText parsedParts;
                         transition = (\<not> thoughtFinished st \<and> isFormalResponseStarted rtext);
                         st = (if transition
                               then st\<lparr>thoughtFinished := True,
                                       accumulatedTextThisAttempt :=
                                         accumulatedTextThisAttempt st @ BEGIN_TOKEN @ ''\<newline>''\<rparr>
                               else st);
                         lineToStore = rewrite_line (thoughtFinished st) line d
                     in st\<lparr>linesBuffer :=
                              linesBuffer st @
                                [\<lparr>rawLine = lineToStore, isTransitionLine = transition,
                                  lo_text = rtext\<rparr>],
                            textBuffer := textBuffer st @ rtext\<rparr>)))"

text \<open>The loop \<^verbatim>\<open>while (linesBuffer.length > 0)\<close> of the lookahead: the lines released,
  the lines kept and the text length forwarded.\<close>

fun release_lines :: "nat \<Rightarrow> nat \<Rightarrow> line_obj list \<Rightarrow> line_obj list \<times> line_obj list \<times> nat" where
  "release_lines safeTextLength forwardedTextLength [] = ([], [], forwardedTextLength)"
| "release_lines safeTextLength forwardedTextLength (lineObject # rest) =
     (if forwardedTextLength + length (lo_text lineObject) \<le> safeTextLength then
        (case release_lines safeTextLength
                (forwardedTextLength + length (lo_text lineObject)) rest of
           (released, kept, n) \<Rightarrow> (lineObject # released, kept, n))
      else ([], lineObject # rest, forwardedTextLength))"

text \<open>What releasing one line writes and adds to the accumulated text. A transition line
  has text from its parts, so its payload has a content object to write the parts to.\<close>

definition forwarded_text :: "line_obj \<Rightarrow> string" where
  "forwarded_text lineObject =
     (if isTransitionLine lineObject then cleanFinalText (lo_text lineObject) True False
      else lo_text lineObject)"

definition forward_line :: "line_obj \<Rightarrow> wire" where
  "forward_line lineObject =
     (if isTransitionLine lineObject
      then Wire_data ((stored_data (rawLine lineObject))
                        \<lparr>ev_content := Parts [text_part (forwarded_text lineObject)]\<rparr>)
      else write_line (rawLine lineObject))"

definition lookahead_release :: "sstate \<Rightarrow> sstate" where
  "lookahead_release st =
     (if length (textBuffer st) > LOOKAHEAD_SIZE then
        (case release_lines (length (textBuffer st) - LOOKAHEAD_SIZE) 0 (linesBuffer st) of
           (released, kept, forwardedTextLength) \<Rightarrow>
             st\<lparr>linesBuffer := kept,
                written := written st @ map forward_line released,
                accumulatedTextThisAttempt :=
                  accumulatedTextThisAttempt st @ concat (map forwarded_text released),
                textBuffer := drop forwardedTextLength (textBuffer st)\<rparr>)
      else st)"

text \<open>One read that returns a chunk.\<close>

definition chunk_step :: "(string \<Rightarrow> event_data option) \<Rightarrow> sstate \<Rightarrow> string \<Rightarrow> sstate" where
  "chunk_step parse st chunkString =
     (if passthroughMode st then st\<lparr>written := written st @ [Wire chunkString]\<rparr>
      else
        let lines = rx_split event_sep_rx (lineBuffer st @ chunkString);
            st = st\<lparr>lineBuffer := last lines\<rparr>;
            st = foldl (process_line parse) st (butlast lines)
        in lookahead_release st)"

text \<open>The final payload, built when the stream ends complete. \<open>None\<close>: the template has no
  content object, and writing its parts throws.\<close>

definition engine_other :: string where
  "engine_other = ''role: model, index: 0''"

definition final_payload :: "line_obj list \<Rightarrow> event_data option" where
  "final_payload buffer =
     (let ps = concat (map (\<lambda>lo. ev_parts (stored_data (rawLine lo))) buffer);
          thoughtTextBuffer = concat (map the_text (filter (\<lambda>p. thought p \<and> text_truthy p) ps));
          responseTextBuffer =
            concat (map the_text (filter (\<lambda>p. \<not> thought p \<and> text_truthy p) ps));
          finalPayload =
            (if buffer = []
             then \<lparr>ev_content = Parts [], finishReason = Some ''STOP'', ev_other = engine_other\<rparr>
             else stored_data (rawLine (last buffer)));
          finalText = cleanFinalText responseTextBuffer True True;
          finalParts =
            (if thoughtTextBuffer \<noteq> [] then [thought_part thoughtTextBuffer] else [])
            @ (if finalText \<noteq> [] then [text_part finalText] else [])
      in if ev_content finalPayload = No_content then None
         else Some (finalPayload\<lparr>ev_content := Parts finalParts, finishReason := Some ''STOP''\<rparr>))"

text \<open>
  What one upstream streaming call gives: an exception of \<^verbatim>\<open>fetch\<close>, a response that is
  not \<^verbatim>\<open>ok\<close>, or an \<^verbatim>\<open>ok\<close> response whose body is read as a sequence of chunks and then
  ends, or breaks with an exception of \<^verbatim>\<open>reader.read()\<close>.
\<close>

datatype stream_end = Ends | Breaks string

datatype upstream_stream =
    Stream_fetch_failed string
  | Stream_http_error int string
  | Stream_ok "string list" stream_end

definition seed_event :: "string \<Rightarrow> event_data" where
  "seed_event seed =
     \<lparr>ev_content = Parts [thought_part seed], finishReason = None, ev_other = engine_other\<rparr>"

definition attempt_start :: "bool \<Rightarrow> string \<Rightarrow> sstate" where
  "attempt_start finished seed =
     \<lparr>thoughtFinished = finished, accumulatedTextThisAttempt = seed,
      hasFunctionCallInStream = False, passthroughMode = False,
      lineBuffer = [], textBuffer = [], linesBuffer = [], written = []\<rparr>"

text \<open>All the reads of one attempt that return a chunk.\<close>

definition read_chunks ::
  "(string \<Rightarrow> event_data option) \<Rightarrow> bool \<Rightarrow> string \<Rightarrow> string list \<Rightarrow> sstate" where
  "read_chunks parse finished seed chunks =
     foldl (chunk_step parse) (attempt_start finished seed) chunks"

text \<open>
  The function \<^verbatim>\<open>process\<close>: the loop \<^verbatim>\<open>while (attempts <= config.maxRetries)\<close> and what
  follows it. \<open>fetch k b\<close> is what the \<open>k\<close>-th upstream call, sent with the body \<open>b\<close>, gives.
  The result is everything written to the caller, in order, and the number of upstream
  calls made. After the loop the code reads \<^verbatim>\<open>linesBuffer\<close>, which is declared inside the
  loop body: the read throws a \<^verbatim>\<open>ReferenceError\<close>, and the handler of \<^verbatim>\<open>process().catch\<close>
  writes the error frame. The keep-alive timer is not part of the model.
\<close>

function stream_loop ::
  "config \<Rightarrow> bool \<Rightarrow> (string \<Rightarrow> event_data option) \<Rightarrow> (int \<Rightarrow> body \<Rightarrow> upstream_stream)
   \<Rightarrow> int \<Rightarrow> body \<Rightarrow> bool \<Rightarrow> wire list \<Rightarrow> wire list \<times> int"
where
  "stream_loop cfg injectBeginTokenPrompt parse fetch attempts currentRequestBody finished out =
     (if attempts \<le> maxRetries cfg then
        (let seed = (if injectBeginTokenPrompt \<and> attempts + 1 = 1 then startOfThought cfg
                     else []);
             out = out @ (if seed \<noteq> [] then [Wire_data (seed_event seed)] else [])
         in case fetch (attempts + 1) currentRequestBody of
              Stream_ok chunks ending \<Rightarrow>
                (let st = read_chunks parse finished seed chunks;
                     out = out @ written st
                 in case ending of
                      Breaks message \<Rightarrow>
                        if attempts + 1 > maxRetries cfg
                        then (out @ [Wire_error 500 ''Internal Server Error after max retries.''
                                       message], attempts + 1)
                        else stream_loop cfg injectBeginTokenPrompt parse fetch (attempts + 1)
                               currentRequestBody (thoughtFinished st) out
                    | Ends \<Rightarrow>
                        if passthroughMode st then (out, attempts + 1)
                        else if thoughtFinished st \<and> isResponseComplete (textBuffer st) then
                          (case final_payload (linesBuffer st) of
                             Some finalPayload \<Rightarrow> (out @ [Wire_data finalPayload], attempts + 1)
                           | None \<Rightarrow>
                               if attempts + 1 > maxRetries cfg
                               then (out @ [Wire_error 500
                                              ''Internal Server Error after max retries.''
                                              ''TypeError''], attempts + 1)
                               else stream_loop cfg injectBeginTokenPrompt parse fetch
                                      (attempts + 1) currentRequestBody (thoughtFinished st) out)
                        else stream_loop cfg injectBeginTokenPrompt parse fetch (attempts + 1)
                               (buildRetryRequest currentRequestBody
                                  (accumulatedTextThisAttempt st))
                               (thoughtFinished st) out)
            | Stream_http_error status errorData \<Rightarrow>
                if status \<in> set FATAL_STATUS_CODES
                then (out @ [Wire_error status ''Upstream API returned a fatal error.'' errorData],
                      attempts + 1)
                else if attempts + 1 > maxRetries cfg
                then (out @ [Wire_error status ''Upstream API error after max retries.'' errorData],
                      attempts + 1)
                else stream_loop cfg injectBeginTokenPrompt parse fetch (attempts + 1)
                       currentRequestBody finished out
            | Stream_fetch_failed message \<Rightarrow>
                if attempts + 1 > maxRetries cfg
                then (out @ [Wire_error 500 ''Internal Server Error after max retries.'' message],
                      attempts + 1)
                else stream_loop cfg injectBeginTokenPrompt parse fetch (attempts + 1)
                       currentRequestBody finished out)
      else (out @ [Wire_error 500 ''Internal worker error.'' ''linesBuffer is not defined''],
            attempts))"
  by pat_completeness auto
termination
  by (relation "measure (\<lambda>(cfg, inj, parse, fetch, attempts, b, finished, out).
                   nat (maxRetries cfg + 1 - attempts))") auto

declare stream_loop.simps [simp del]



text \<open>A sample stand-in for \<^verbatim>\<open>JSON.parse\<close>: the payload \<^verbatim>\<open>F\<close> is an event with one
  function-call part, a payload \<^verbatim>\<open>T\<close> followed by a text is an event with one text part
  holding that text, anything else does not parse.\<close>

definition sample_call_event :: event_data where
  "sample_call_event =
     \<lparr>ev_content = Parts [\<lparr>ptext = None, thought = False, functionCall = Some ''f''\<rparr>],
      finishReason = None, ev_other = []\<rparr>"

definition sample_text_event :: "string \<Rightarrow> event_data" where
  "sample_text_event t = \<lparr>ev_content = Parts [text_part t], finishReason = None, ev_other = []\<rparr>"

definition sample_parse :: "string \<Rightarrow> event_data option" where
  "sample_parse s =
     (if s = ''F'' then Some sample_call_event
      else case s of CHR ''T'' # t \<Rightarrow> Some (sample_text_event t) | _ \<Rightarrow> None)"

definition sample_config5 :: config where
  "sample_config5 = \<lparr>maxRetries = 5, startOfThought = ''Here is a''\<rparr>"

section \<open>Notions for stating properties of the streaming engine\<close>

text \<open>
  The formal text a caller reads from what the engine wrote: the texts of the parts that
  are not flagged as thought, over the events written, in order. Bytes written as they
  are and error frames hold no part.
\<close>

definition formal_of_parts :: "part list \<Rightarrow> string" where
  "formal_of_parts ps = concat (map the_text (filter (\<lambda>p. text_truthy p \<and> \<not> thought p) ps))"

definition formal_of :: "event_data \<Rightarrow> string" where
  "formal_of d = formal_of_parts (ev_parts d)"

fun wire_formal_text :: "wire \<Rightarrow> string" where
  "wire_formal_text (Wire bytes) = []"
| "wire_formal_text (Wire_event line d) = formal_of d"
| "wire_formal_text (Wire_data d) = formal_of d"
| "wire_formal_text (Wire_error code message details) = []"

definition formal_text :: "wire list \<Rightarrow> string" where
  "formal_text ws = concat (map wire_formal_text ws)"

text \<open>An upstream line whose payload carries a function call, and a stream none of whose
  complete events does.\<close>

definition line_has_call :: "(string \<Rightarrow> event_data option) \<Rightarrow> string \<Rightarrow> bool" where
  "line_has_call parse line \<longleftrightarrow>
     prefix ''data:'' line \<and>
     (case parse (trim (drop 5 line)) of
        None \<Rightarrow> False
      | Some d \<Rightarrow> hasFunctionCall (parseParts (ev_parts d)))"

definition no_function_call :: "(string \<Rightarrow> event_data option) \<Rightarrow> string \<Rightarrow> bool" where
  "no_function_call parse s \<longleftrightarrow>
     list_all (\<lambda>line. \<not> line_has_call parse line) (butlast (rx_split event_sep_rx s))"

text \<open>The same upstream response delivered in a single chunk.\<close>

fun fuse :: "upstream_stream \<Rightarrow> upstream_stream" where
  "fuse (Stream_ok chunks ending) = Stream_ok [concat chunks] ending"
| "fuse (Stream_http_error status errorData) = Stream_http_error status errorData"
| "fuse (Stream_fetch_failed message) = Stream_fetch_failed message"

fun call_free :: "(string \<Rightarrow> event_data option) \<Rightarrow> upstream_stream \<Rightarrow> bool" where
  "call_free parse (Stream_ok chunks ending) = no_function_call parse (concat chunks)"
| "call_free parse (Stream_http_error status errorData) = True"
| "call_free parse (Stream_fetch_failed message) = True"

text \<open>The length of the event separator at the front of a text (0: none there), stated
  for any two characters in place of carriage return and line feed, and for these two.\<close>

definition sep_len_of :: "'a \<Rightarrow> 'a \<Rightarrow> 'a list \<Rightarrow> nat" where
  "sep_len_of cr lf s =
     (if prefix [cr, lf, cr, lf] s then 4
      else if prefix [cr, lf, lf] s then 3
      else if prefix [lf, cr, lf] s then 3
      else if prefix [lf, lf] s then 2
      else 0)"

definition sep_len :: "string \<Rightarrow> nat" where
  "sep_len s = sep_len_of (CHR 0x0D) (CHR 0x0A) s"

section \<open>Notions for relating a chunked run to the lines it has read\<close>

text \<open>
  \<open>text_sum k ls\<close> is the length of the text of the first \<open>k\<close> lines of \<open>ls\<close>. A line
  object is \<open>plain\<close> when, having no text of its own, it is no transition line and its
  stored payload shows no formal text. \<open>tracks st st0 k\<close> relates the state \<open>st\<close> of a run
  to the state \<open>st0\<close> that has read the same lines and released none of them: \<open>st\<close> has
  released the first \<open>k\<close> lines. \<open>released_most st0 k\<close> says that no prefix of the lines
  with more text fits under the lookahead margin.
\<close>

definition text_sum :: "nat \<Rightarrow> line_obj list \<Rightarrow> nat" where
  "text_sum k ls = length (concat (map lo_text (take k ls)))"

definition plain :: "line_obj \<Rightarrow> bool" where
  "plain lo \<longleftrightarrow>
     (lo_text lo = [] \<longrightarrow>
        \<not> isTransitionLine lo \<and> formal_of (stored_data (rawLine lo)) = [])"

definition tracks :: "sstate \<Rightarrow> sstate \<Rightarrow> nat \<Rightarrow> bool" where
  "tracks st st0 k \<longleftrightarrow>
     k \<le> length (linesBuffer st0)
     \<and> linesBuffer st = drop k (linesBuffer st0)
     \<and> textBuffer st = drop (text_sum k (linesBuffer st0)) (textBuffer st0)
     \<and> thoughtFinished st = thoughtFinished st0
     \<and> \<not> passthroughMode st \<and> \<not> hasFunctionCallInStream st
     \<and> \<not> passthroughMode st0 \<and> \<not> hasFunctionCallInStream st0
     \<and> formal_text (written st) =
         concat (map (\<lambda>lo. wire_formal_text (forward_line lo)) (take k (linesBuffer st0)))
     \<and> (text_sum k (linesBuffer st0) = 0
        \<or> text_sum k (linesBuffer st0) + LOOKAHEAD_SIZE \<le> length (textBuffer st0))
     \<and> textBuffer st0 = concat (map lo_text (linesBuffer st0))
     \<and> list_all plain (linesBuffer st0)"

definition released_most :: "sstate \<Rightarrow> nat \<Rightarrow> bool" where
  "released_most st0 k \<longleftrightarrow>
     (\<forall>j. j \<le> length (linesBuffer st0)
          \<and> text_sum j (linesBuffer st0) + LOOKAHEAD_SIZE \<le> length (textBuffer st0)
        \<longrightarrow> text_sum j (linesBuffer st0) \<le> text_sum k (linesBuffer st0))"

text \<open>The state that has read all complete lines of a text and released none.\<close>

definition fed :: "(string \<Rightarrow> event_data option) \<Rightarrow> bool \<Rightarrow> string \<Rightarrow> string \<Rightarrow> sstate" where
  "fed parse finished seed s =
     foldl (process_line parse) (attempt_start finished seed) (butlast (rx_split event_sep_rx s))"

text \<open>The line object that reading a line without a function call appends to
  \<^verbatim>\<open>linesBuffer\<close> (\<open>None\<close>: the line is written through or dropped).\<close>

definition pushed_line ::
  "(string \<Rightarrow> event_data option) \<Rightarrow> bool \<Rightarrow> string \<Rightarrow> line_obj option" where
  "pushed_line parse finished line =
     (if \<not> prefix ''data:'' line \<or> trim (drop 5 line) = [] then None
      else
        case parse (trim (drop 5 line)) of
          None \<Rightarrow> None
        | Some d \<Rightarrow>
            (let parsedParts = parseParts (ev_parts d) in
             if hasThought parsedParts \<and> responseText parsedParts = []
                \<and> \<not> hasFunctionCall parsedParts
             then None
             else
               Some \<lparr>rawLine =
                       rewrite_line
                         (finished \<or> isFormalResponseStarted (responseText parsedParts)) line d,
                     isTransitionLine =
                       (\<not> finished \<and> isFormalResponseStarted (responseText parsedParts)),
                     lo_text = responseText parsedParts\<rparr>))"

text \<open>The formal text of the final payload, and the observations of an attempt's state
  on which the rest of the run depends.\<close>

definition final_formal :: "line_obj list \<Rightarrow> string option" where
  "final_formal ls = map_option formal_of (final_payload ls)"

definition agree :: "sstate \<Rightarrow> sstate \<Rightarrow> bool" where
  "agree st1 st2 \<longleftrightarrow>
     formal_text (written st1) = formal_text (written st2)
     \<and> thoughtFinished st1 = thoughtFinished st2
     \<and> textBuffer st1 = textBuffer st2
     \<and> \<not> passthroughMode st1 \<and> \<not> passthroughMode st2
     \<and> (textBuffer st1 \<noteq> [] \<longrightarrow>
          final_formal (linesBuffer st1) = final_formal (linesBuffer st2))"

text \<open>A sample upstream for the streaming engine: three text events whose texts make up
  the begin token, an answer and the finished token, cut into four chunks inside a line
  and inside a separator.\<close>

definition sample_chunks :: "string list" where
  "sample_chunks =
     [''data: T[RESPONSE_BEG'', ''IN]Hello\<newline>'',
      ''\<newline>data: T, this is the complete answer\<newline>\<newline>data: T t'',
      ''o it.[RESPONSE_FINISHED]\<newline>\<newline>'']"

definition sample_stream :: "int \<Rightarrow> upstream_stream" where
  "sample_stream k = Stream_ok sample_chunks Ends"

text \<open>A sample upstream whose response carries a thought-flagged part and a function
  call.\<close>

definition sample_call_response :: response where
  "sample_call_response =
     \<lparr>resp_parts = [thought_part ''hidden reasoning'',
                    \<lparr>ptext = None, thought = False, functionCall = Some ''f''\<rparr>],
      resp_other = ''{}''\<rparr>"

definition sample_call_fetch :: "int \<Rightarrow> body \<Rightarrow> upstream_result" where
  "sample_call_fetch k b = Http_ok sample_call_response"

section \<open>Request mutator on a store of objects (core.js, \<^verbatim>\<open>injectSystemPrompts\<close>)\<close>

text \<open>
  To say what a call does to the object it is given, the objects a request body is made of
  live in a store: a cell per object or array, addressed by its index, holding the
  addresses of the objects it refers to. A body that comes from \<^verbatim>\<open>JSON.parse\<close> is a tree of
  such cells. \<open>cell_at\<close> reads a cell, \<open>alloc\<close> creates one at the next free address.
\<close>

datatype cell =
    Part_cell part
  | Array_cell "nat list"
  | Content_cell "string option" "nat option"
  | Instruction_cell "nat option"
  | Body_cell "nat option" "nat option" "nat option" "int option" "string option"

type_synonym store = "cell list"

definition cell_at :: "store \<Rightarrow> nat \<Rightarrow> cell option" where
  "cell_at h a = (if a < length h then Some (h ! a) else None)"

definition alloc :: "cell \<Rightarrow> store \<Rightarrow> nat \<times> store" where
  "alloc c h = (length h, h @ [c])"

text \<open>The value an address stands for (\<open>None\<close>: the cells there do not make up such a
  value).\<close>

definition load_part :: "store \<Rightarrow> nat \<Rightarrow> part option" where
  "load_part h a = (case cell_at h a of Some (Part_cell p) \<Rightarrow> Some p | _ \<Rightarrow> None)"

definition load_parts :: "store \<Rightarrow> nat \<Rightarrow> part list option" where
  "load_parts h a =
     (case cell_at h a of Some (Array_cell as) \<Rightarrow> those (map (load_part h) as) | _ \<Rightarrow> None)"

definition load_parts_opt :: "store \<Rightarrow> nat option \<Rightarrow> part list option option" where
  "load_parts_opt h ao =
     (case ao of None \<Rightarrow> Some None | Some a \<Rightarrow> map_option Some (load_parts h a))"

definition load_content :: "store \<Rightarrow> nat \<Rightarrow> content option" where
  "load_content h a =
     (case cell_at h a of
        Some (Content_cell r pa) \<Rightarrow>
          map_option (\<lambda>ps. \<lparr>role = r, parts = ps\<rparr>) (load_parts_opt h pa)
      | _ \<Rightarrow> None)"

definition load_contents_opt :: "store \<Rightarrow> nat option \<Rightarrow> content list option option" where
  "load_contents_opt h ao =
     (case ao of
        None \<Rightarrow> Some None
      | Some a \<Rightarrow>
          (case cell_at h a of
             Some (Array_cell as) \<Rightarrow> map_option Some (those (map (load_content h) as))
           | _ \<Rightarrow> None))"

definition load_instruction_opt :: "store \<Rightarrow> nat option \<Rightarrow> instruction option option" where
  "load_instruction_opt h ao =
     (case ao of
        None \<Rightarrow> Some None
      | Some a \<Rightarrow>
          (case cell_at h a of
             Some (Instruction_cell pa) \<Rightarrow>
               map_option (\<lambda>ps. Some \<lparr>si_parts = ps\<rparr>) (load_parts_opt h pa)
           | _ \<Rightarrow> None))"

definition load_body :: "store \<Rightarrow> nat \<Rightarrow> body option" where
  "load_body h a =
     (case cell_at h a of
        Some (Body_cell si si' cs tb rs) \<Rightarrow>
          (case (load_instruction_opt h si, load_instruction_opt h si', load_contents_opt h cs) of
             (Some i, Some i', Some c) \<Rightarrow>
               Some \<lparr>systemInstruction = i, system_instruction = i', contents = c,
                     thinkingBudget = tb, responseSchema = rs\<rparr>
           | _ \<Rightarrow> None)
      | _ \<Rightarrow> None)"

text \<open>Fresh cells for a value: what \<^verbatim>\<open>structuredClone\<close> creates for the value it copies.\<close>

fun store_part_list :: "part list \<Rightarrow> store \<Rightarrow> nat list \<times> store" where
  "store_part_list [] h = ([], h)"
| "store_part_list (p # ps) h =
     (case alloc (Part_cell p) h of
        (a, h) \<Rightarrow> (case store_part_list ps h of (as, h) \<Rightarrow> (a # as, h)))"

definition store_parts_opt :: "part list option \<Rightarrow> store \<Rightarrow> nat option \<times> store" where
  "store_parts_opt pso h =
     (case pso of
        None \<Rightarrow> (None, h)
      | Some ps \<Rightarrow>
          (case store_part_list ps h of
             (as, h) \<Rightarrow> (case alloc (Array_cell as) h of (a, h) \<Rightarrow> (Some a, h))))"

definition store_content :: "content \<Rightarrow> store \<Rightarrow> nat \<times> store" where
  "store_content c h =
     (case store_parts_opt (parts c) h of (pa, h) \<Rightarrow> alloc (Content_cell (role c) pa) h)"

fun store_content_list :: "content list \<Rightarrow> store \<Rightarrow> nat list \<times> store" where
  "store_content_list [] h = ([], h)"
| "store_content_list (c # cs) h =
     (case store_content c h of
        (a, h) \<Rightarrow> (case store_content_list cs h of (as, h) \<Rightarrow> (a # as, h)))"

definition store_contents_opt :: "content list option \<Rightarrow> store \<Rightarrow> nat option \<times> store" where
  "store_contents_opt cso h =
     (case cso of
        None \<Rightarrow> (None, h)
      | Some cs \<Rightarrow>
          (case store_content_list cs h of
             (as, h) \<Rightarrow> (case alloc (Array_cell as) h of (a, h) \<Rightarrow> (Some a, h))))"

definition store_instruction_opt :: "instruction option \<Rightarrow> store \<Rightarrow> nat option \<times> store" where
  "store_instruction_opt io h =
     (case io of
        None \<Rightarrow> (None, h)
      | Some i \<Rightarrow>
          (case store_parts_opt (si_parts i) h of
             (pa, h) \<Rightarrow> (case alloc (Instruction_cell pa) h of (a, h) \<Rightarrow> (Some a, h))))"

definition store_body :: "body \<Rightarrow> store \<Rightarrow> nat \<times> store" where
  "store_body b h =
     (case store_instruction_opt (systemInstruction b) h of
        (si, h) \<Rightarrow>
          (case store_instruction_opt (system_instruction b) h of
             (si', h) \<Rightarrow>
               (case store_contents_opt (contents b) h of
                  (cs, h) \<Rightarrow>
                    alloc (Body_cell si si' cs (thinkingBudget b) (responseSchema b)) h)))"

text \<open>\<^verbatim>\<open>structuredClone(body)\<close> (\<open>None\<close>: there is no body at the address).\<close>

definition structuredClone :: "nat \<Rightarrow> store \<Rightarrow> (nat \<times> store) option" where
  "structuredClone body h = map_option (\<lambda>b. store_body b h) (load_body h body)"

text \<open>The statements of \<^verbatim>\<open>normalizeSystemInstruction\<close> and \<^verbatim>\<open>injectSystemPrompts\<close>, each reading
  and writing the cells it names. \<open>text_truthy_at\<close> and \<open>text_at\<close> read \<^verbatim>\<open>parts[i].text\<close>,
  \<open>set_text\<close> assigns to it.\<close>

definition text_truthy_at :: "store \<Rightarrow> nat \<Rightarrow> bool" where
  "text_truthy_at h a = (case load_part h a of Some p \<Rightarrow> text_truthy p | None \<Rightarrow> False)"

definition text_at :: "store \<Rightarrow> nat \<Rightarrow> string" where
  "text_at h a = (case load_part h a of Some p \<Rightarrow> the_text p | None \<Rightarrow> [])"

definition set_text :: "nat \<Rightarrow> string \<Rightarrow> store \<Rightarrow> store" where
  "set_text a s h =
     (case load_part h a of Some p \<Rightarrow> h[a := Part_cell (p\<lparr>ptext := Some s\<rparr>)] | None \<Rightarrow> h)"

definition normalizeSystemInstruction_store :: "nat \<Rightarrow> store \<Rightarrow> store" where
  "normalizeSystemInstruction_store body h =
     (case cell_at h body of
        Some (Body_cell si si' cs tb rs) \<Rightarrow>
          if si \<noteq> None \<and> si' \<noteq> None then h[body := Body_cell si None cs tb rs]
          else if si = None \<and> si' \<noteq> None then h[body := Body_cell si' None cs tb rs]
          else h
      | _ \<Rightarrow> h)"

definition merge_prompt_store :: "string \<Rightarrow> nat \<Rightarrow> store \<Rightarrow> store" where
  "merge_prompt_store promptToInject newBody h =
     (case alloc (Part_cell (text_part promptToInject)) h of
        (tokenPromptPart, h) \<Rightarrow>
          (case cell_at h newBody of
             Some (Body_cell None si' cs tb rs) \<Rightarrow>
               (case alloc (Array_cell [tokenPromptPart]) h of
                  (arr, h) \<Rightarrow>
                    (case alloc (Instruction_cell (Some arr)) h of
                       (i, h) \<Rightarrow> h[newBody := Body_cell (Some i) si' cs tb rs]))
           | Some (Body_cell (Some i) si' cs tb rs) \<Rightarrow>
               (case cell_at h i of
                  Some (Instruction_cell None) \<Rightarrow>
                    (case alloc (Array_cell [tokenPromptPart]) h of
                       (arr, h) \<Rightarrow> h[i := Instruction_cell (Some arr)])
                | Some (Instruction_cell (Some arr)) \<Rightarrow>
                    (case cell_at h arr of
                       Some (Array_cell as) \<Rightarrow>
                         if as = [] \<or> \<not> text_truthy_at h (hd as)
                         then h[arr := Array_cell (tokenPromptPart # tl as)]
                         else set_text (hd as)
                                (text_at h (hd as) @ ''\<newline>\<newline>---\<newline>'' @ promptToInject) h
                     | _ \<Rightarrow> h)
                | _ \<Rightarrow> h)
           | _ \<Rightarrow> h))"

definition mark_content_store :: "bool \<Rightarrow> bool \<Rightarrow> nat \<Rightarrow> store \<Rightarrow> store" where
  "mark_content_store injectBeginTokenPrompt injectFinishTokenPrompt content h =
     (case cell_at h content of
        Some (Content_cell r (Some arr)) \<Rightarrow>
          (case cell_at h arr of
             Some (Array_cell as) \<Rightarrow>
               (let h = (if injectBeginTokenPrompt \<and> r = Some ''model'' then
                           (case first_index (text_truthy_at h) as of
                              None \<Rightarrow> h
                            | Some i \<Rightarrow>
                                set_text (as ! i) (BEGIN_TOKEN @ ''\<newline>'' @ text_at h (as ! i)) h)
                         else h)
                in if injectFinishTokenPrompt \<and> r = Some ''model'' then
                     (case last_index (text_truthy_at h) as of
                        None \<Rightarrow> h
                      | Some i \<Rightarrow>
                          set_text (as ! i) (text_at h (as ! i) @ ''\<newline>'' @ FINISHED_TOKEN) h)
                   else h)
           | _ \<Rightarrow> h)
      | _ \<Rightarrow> h)"

definition add_reminder_store :: "prompts \<Rightarrow> config \<Rightarrow> bool \<Rightarrow> nat \<Rightarrow> store \<Rightarrow> store" where
  "add_reminder_store pr cfg injectBeginTokenPrompt contentsArray h =
     (case cell_at h contentsArray of
        Some (Array_cell cas) \<Rightarrow>
          if cas = [] then h
          else
            (case cell_at h (last cas) of
               Some (Content_cell r (Some arr)) \<Rightarrow>
                 (case cell_at h arr of
                    Some (Array_cell as) \<Rightarrow>
                      if r = Some ''user'' \<and> as \<noteq> [] then
                        (case last_index
                                (\<lambda>a. text_truthy_at h a \<and> trim_nonempty (text_at h a)) as of
                           None \<Rightarrow> h
                         | Some i \<Rightarrow>
                             (let h = set_text (as ! i)
                                        (text_at h (as ! i) @ ''\<newline>\<newline>---\<newline>'' @ REMINDER_PROMPT pr) h
                              in if injectBeginTokenPrompt then
                                   (case alloc (Part_cell (text_part (startOfThought cfg))) h of
                                      (p, h) \<Rightarrow>
                                        (case alloc (Array_cell [p]) h of
                                           (pa, h) \<Rightarrow>
                                             (case alloc (Content_cell (Some ''model'') (Some pa)) h of
                                                (c, h) \<Rightarrow>
                                                  h[contentsArray := Array_cell (cas @ [c])])))
                                 else h))
                      else h
                  | _ \<Rightarrow> h)
             | _ \<Rightarrow> h)
      | _ \<Rightarrow> h)"

definition injectSystemPrompts_store ::
  "prompts \<Rightarrow> nat \<Rightarrow> config \<Rightarrow> bool \<Rightarrow> bool \<Rightarrow> store \<Rightarrow> (nat \<times> store) option"
where
  "injectSystemPrompts_store pr body cfg injectBeginTokenPrompt injectFinishTokenPrompt h =
     (case structuredClone body h of
        None \<Rightarrow> None
      | Some (newBody, h) \<Rightarrow>
          (let h = normalizeSystemInstruction_store newBody h;
               promptToInject =
                 (if injectBeginTokenPrompt \<and> injectFinishTokenPrompt
                  then BEGIN_TOKEN_PROMPT pr @ FINISH_TOKEN_PROMPT pr
                  else if injectBeginTokenPrompt then BEGIN_TOKEN_PROMPT pr
                  else if injectFinishTokenPrompt then FINISH_TOKEN_PROMPT pr
                  else [])
           in if promptToInject = [] then Some (newBody, h)
              else
                let h = merge_prompt_store promptToInject newBody h in
                case cell_at h newBody of
                  Some (Body_cell si si' (Some contentsArray) tb rs) \<Rightarrow>
                    (case cell_at h contentsArray of
                       Some (Array_cell cas) \<Rightarrow>
                         Some (newBody,
                               add_reminder_store pr cfg injectBeginTokenPrompt contentsArray
                                 (fold (mark_content_store injectBeginTokenPrompt
                                          injectFinishTokenPrompt) cas h))
                     | _ \<Rightarrow> Some (newBody, h))
                | _ \<Rightarrow> Some (newBody, h)))"

text \<open>Sample inputs for the store: the instruction texts, a body with a system
  instruction, a model turn and a last user turn, and the store that holds just this body,
  at the address \<open>sample_address\<close>.\<close>

definition sample_prompts :: prompts where
  "sample_prompts =
     \<lparr>BEGIN_TOKEN_PROMPT = ''begin with the token. '', FINISH_TOKEN_PROMPT = ''end with the token.'',
      REMINDER_PROMPT = ''remember the tokens''\<rparr>"

definition sample_chat_body :: body where
  "sample_chat_body =
     \<lparr>systemInstruction = None,
      system_instruction = Some \<lparr>si_parts = Some [text_part ''be brief'']\<rparr>,
      contents = Some [\<lparr>role = Some ''user'', parts = Some [text_part ''hi'']\<rparr>,
                       \<lparr>role = Some ''model'', parts = Some sample_parts\<rparr>,
                       \<lparr>role = Some ''user'', parts = Some [text_part ''go on'']\<rparr>],
      thinkingBudget = None, responseSchema = None\<rparr>"

definition sample_store :: store where
  "sample_store = snd (store_body sample_chat_body [])"

definition sample_address :: nat where
  "sample_address = fst (store_body sample_chat_body [])"

text \<open>Notions for saying which cells a run touches: the addresses a cell refers to; a store
  whose cells from \<open>n\<close> on refer only to cells from \<open>n\<close> on; and a store that differs from
  another only from \<open>n\<close> on and is of that kind.\<close>

fun refs :: "cell \<Rightarrow> nat set" where
  "refs (Part_cell p) = {}"
| "refs (Array_cell as) = set as"
| "refs (Content_cell r pa) = set_option pa"
| "refs (Instruction_cell pa) = set_option pa"
| "refs (Body_cell si si' cs tb rs) = set_option si \<union> set_option si' \<union> set_option cs"

definition fresh_above :: "nat \<Rightarrow> store \<Rightarrow> bool" where
  "fresh_above n h \<longleftrightarrow> (\<forall>a. n \<le> a \<and> a < length h \<longrightarrow> (\<forall>r \<in> refs (h ! a). n \<le> r))"

definition extends :: "nat \<Rightarrow> store \<Rightarrow> store \<Rightarrow> bool" where
  "extends n h h' \<longleftrightarrow> fresh_above n h' \<and> take n h' = take n h \<and> length h \<le> length h'"

section \<open>Notions for stating where the tokens may stand\<close>




























section \<open>Facts about the matcher\<close>

lemma ms_lits:
  "ms (lits w r) n s = (if prefix w s then ms r n (drop (length w) s) else [])"
proof (induction w arbitrary: s)
  case Nil
  show ?case by (simp add: lits_def)
next
  case (Cons c w)
  have step: "lits (c # w) r = Seq (Chr c) (lits w r)"
    by (simp add: lits_def)
  show ?case
  proof (cases s)
    case Nil
    then show ?thesis by (simp add: step)
  next
    case (Cons x xs)
    then show ?thesis using Cons.IH [of xs] by (simp add: step)
  qed
qed

lemma rx_search_Bol_later:
  "length s < n \<Longrightarrow> rx_search (Seq Bol r) n pre s = None"
  by (induction s arbitrary: pre) (simp_all add: rx_search.simps [of _ _ _ "[]"] rx_search.simps [of _ _ _ "_ # _"])

lemma rx_search_Bol:
  "rx_search (Seq Bol r) (length s) [] s =
     (case ms r (length s) s of m # _ \<Rightarrow> Some ([], m) | [] \<Rightarrow> None)"
proof (cases "ms r (length s) s")
  case Nil
  show ?thesis
  proof (cases s)
    case Nil
    with \<open>ms r (length s) s = []\<close> show ?thesis by (simp add: rx_search.simps [of _ _ _ "[]"])
  next
    case (Cons x xs)
    have "rx_search (Seq Bol r) (length s) [x] xs = None"
      using Cons by (intro rx_search_Bol_later) simp
    with Cons \<open>ms r (length s) s = []\<close> show ?thesis
      by (simp add: rx_search.simps [of _ _ _ "_ # _"])
  qed
next
  case (Cons m list)
  then show ?thesis by (simp add: rx_search.simps [of _ _ _ s])
qed

lemma ms_Opt_Ws:
  "ms (Opt Ws) n s = (case s of [] \<Rightarrow> [s] | c # cs \<Rightarrow> if is_space c then [cs, s] else [s])"
  by (cases s) simp_all

lemma ms_Star_Ws_Nil: "ms (Star Ws) n [] = [[]]"
  by (subst ms.simps(10)) (simp del: ms.simps(10))

lemma ms_Star_Ws_Cons:
  "ms (Star Ws) n (c # cs) = (if is_space c then ms (Star Ws) n cs @ [c # cs] else [c # cs])"
  by (subst ms.simps(10)) (simp del: ms.simps(10))

lemma ms_Star_Ws_then_Eol:
  "concat (map (ms Eol n) (ms (Star Ws) n s)) = (if list_all is_space s then [[]] else [])"
proof (induction s)
  case Nil
  show ?case by (simp add: ms_Star_Ws_Nil)
next
  case (Cons a s)
  show ?case
  proof (cases "is_space a")
    case True
    have "concat (map (ms Eol n) (ms (Star Ws) n (a # s)))
        = concat (map (ms Eol n) (ms (Star Ws) n s)) @ ms Eol n (a # s)"
      by (simp add: ms_Star_Ws_Cons True)
    also have "\<dots> = (if list_all is_space s then [[]] else [])"
      unfolding Cons.IH by simp
    finally have "concat (map (ms Eol n) (ms (Star Ws) n (a # s)))
        = (if list_all is_space s then [[]] else [])" .
    moreover have "list_all is_space (a # s) = list_all is_space s"
      using True by simp
    ultimately show ?thesis by (simp only:)
  next
    case False
    then show ?thesis by (simp add: ms_Star_Ws_Cons)
  qed
qed

lemma ms_Star_Ws_Eol:
  "ms (Seq (Star Ws) Eol) n s = (if list_all is_space s then [[]] else [])"
  unfolding ms.simps(7) by (rule ms_Star_Ws_then_Eol)

lemma ms_finish_tail:
  "ms (lits FINISHED_TOKEN (Seq (Star Ws) Eol)) n s = (if fin_here s then [[]] else [])"
  unfolding ms_lits ms_Star_Ws_Eol fin_here_def by simp

lemma fin_here_Nil [simp]: "\<not> fin_here []"
  by (simp add: fin_here_def FINISHED_TOKEN_def)

lemma ms_finish_rx:
  "ms finish_rx n s =
     (case s of
        [] \<Rightarrow> []
      | c # cs \<Rightarrow>
          (if is_space c \<and> fin_here cs then [[]] else []) @ (if fin_here s then [[]] else []))"
  unfolding finish_rx_def
  by (cases s) (simp_all add: ms_Opt_Ws ms_finish_tail del: ms.simps(9))

lemma opt_space_cases: "opt_space m \<longleftrightarrow> m = [] \<or> (\<exists>w. m = [w] \<and> is_space w)"
  by (auto simp: opt_space_def split: list.splits)

lemma FINISHED_TOKEN_head: "\<exists>c cs. FINISHED_TOKEN @ r = c # cs \<and> \<not> is_space c"
  by (simp add: FINISHED_TOKEN_def is_space_def)

lemma BEGIN_TOKEN_head: "\<exists>c cs. BEGIN_TOKEN @ r = c # cs \<and> \<not> is_space c"
  by (simp add: BEGIN_TOKEN_def is_space_def)

lemma FINISHED_TOKEN_last: "\<not> is_space (last FINISHED_TOKEN)"
  by (simp add: FINISHED_TOKEN_def is_space_def)

text \<open>The finish token followed by white space up to the end of the input can only be the
  last occurrence: the token's own characters are not white space.\<close>

lemma fin_here_only_at_end:
  assumes "fin_here (x @ FINISHED_TOKEN @ trail)"
  shows "x = []"
proof (rule ccontr)
  assume "x \<noteq> []"
  then have lt: "length FINISHED_TOKEN - length x < length FINISHED_TOKEN"
    by (simp add: FINISHED_TOKEN_def)
  define k where "k = length FINISHED_TOKEN - length x"
  have "drop k FINISHED_TOKEN \<noteq> []" using lt by (simp add: k_def)
  then have "last (drop k FINISHED_TOKEN) \<in> set (drop k FINISHED_TOKEN)"
    by (rule last_in_set)
  moreover have "last (drop k FINISHED_TOKEN) = last FINISHED_TOKEN"
    using lt by (simp add: k_def)
  moreover have "list_all is_space (drop k FINISHED_TOKEN)"
    using assms by (simp add: fin_here_def k_def)
  ultimately show False using FINISHED_TOKEN_last by (simp add: list_all_iff)
qed

lemma fin_here_end: "list_all is_space trail \<Longrightarrow> fin_here (FINISHED_TOKEN @ trail)"
  by (simp add: fin_here_def)

lemma rx_search_finish:
  assumes trail: "list_all is_space trail"
    and sep: "opt_space m2"
    and tail: "m2 = [] \<Longrightarrow> u = [] \<or> \<not> is_space (last u)"
  shows "rx_search finish_rx n pre (u @ m2 @ FINISHED_TOKEN @ trail) = Some (pre @ u, [])"
  using tail
proof (induction u arbitrary: pre)
  case Nil
  show ?case
  proof (cases m2)
    case Nil
    obtain c cs where F: "FINISHED_TOKEN @ trail = c # cs" "\<not> is_space c"
      using FINISHED_TOKEN_head [of trail] by auto
    have "fin_here (c # cs)" using fin_here_end [OF trail] F by simp
    then show ?thesis using Nil F
      by (simp add: ms_finish_rx rx_search.simps [of _ _ _ "c # cs"])
  next
    case (Cons w ws)
    then have w: "m2 = [w]" "is_space w" using sep by (auto simp: opt_space_cases)
    then show ?thesis using fin_here_end [OF trail]
      by (simp add: ms_finish_rx rx_search.simps [of _ _ _ "w # _"])
  qed
next
  case (Cons c u)
  have no1: "\<not> fin_here ((c # u) @ m2 @ FINISHED_TOKEN @ trail)"
    using fin_here_only_at_end [of "(c # u) @ m2" trail] by auto
  have no2: "\<not> (is_space c \<and> fin_here (u @ m2 @ FINISHED_TOKEN @ trail))"
  proof
    assume a: "is_space c \<and> fin_here (u @ m2 @ FINISHED_TOKEN @ trail)"
    then have "u @ m2 = []" using fin_here_only_at_end [of "u @ m2" trail] by simp
    then show False using Cons.prems a by simp
  qed
  have tail': "m2 = [] \<Longrightarrow> u = [] \<or> \<not> is_space (last u)"
    using Cons.prems by (cases u) auto
  have "rx_search finish_rx n pre ((c # u) @ m2 @ FINISHED_TOKEN @ trail)
      = rx_search finish_rx n (pre @ [c]) (u @ m2 @ FINISHED_TOKEN @ trail)"
    using no1 no2 by (auto simp: ms_finish_rx rx_search.simps [of _ _ pre "c # _"])
  also have "\<dots> = Some ((pre @ [c]) @ u, [])"
    using Cons.IH [OF tail'] .
  finally show ?case by simp
qed

lemma rx_remove_begin:
  assumes "opt_space pre"
  shows "rx_remove begin_rx (pre @ BEGIN_TOKEN @ rest) = strip1 rest"
proof -
  obtain b bs where B: "BEGIN_TOKEN @ rest = b # bs" "\<not> is_space b"
    using BEGIN_TOKEN_head [of rest] by auto
  have "\<exists>l. ms (Seq (Opt Ws) (lits BEGIN_TOKEN (Opt Ws))) n (pre @ BEGIN_TOKEN @ rest)
          = strip1 rest # l" for n
  proof (cases pre)
    case Nil
    have "ms (Opt Ws) n (BEGIN_TOKEN @ rest) = [BEGIN_TOKEN @ rest]"
      using B by (simp add: ms_Opt_Ws)
    then show ?thesis using Nil
      by (cases rest) (simp_all add: ms_lits ms_Opt_Ws strip1_def del: ms.simps(9))
  next
    case (Cons w ws)
    then have "pre = [w]" "is_space w" using assms by (auto simp: opt_space_cases)
    then show ?thesis
      by (cases rest) (simp_all add: ms_lits ms_Opt_Ws strip1_def del: ms.simps(9))
  qed
  then obtain l where
    "ms (Seq (Opt Ws) (lits BEGIN_TOKEN (Opt Ws))) (length (pre @ BEGIN_TOKEN @ rest))
        (pre @ BEGIN_TOKEN @ rest) = strip1 rest # l"
    by blast
  then show ?thesis
    unfolding rx_remove_def begin_rx_def rx_search_Bol by (simp del: ms.simps)
qed

lemma rx_remove_finish:
  assumes "list_all is_space trail" "opt_space m2" "m2 = [] \<Longrightarrow> u = [] \<or> \<not> is_space (last u)"
  shows "rx_remove finish_rx (u @ m2 @ FINISHED_TOKEN @ trail) = u"
  unfolding rx_remove_def using rx_search_finish [OF assms, of _ "[]"] by simp

section \<open>hasAnswerStarted\<close>

lemma isFormalResponseStarted_iff:
  "isFormalResponseStarted t \<longleftrightarrow>
     prefix BEGIN_TOKEN t \<and>
     (case drop (length BEGIN_TOKEN) t of
        [] \<Rightarrow> True
      | c # _ \<Rightarrow> c \<notin> set [CHR 0x60, CHR ''.'', CHR '' ''])"
  unfolding isFormalResponseStarted_def rx_test_def rx_search_Bol ms_lits
  by (cases "drop (length BEGIN_TOKEN) t") auto

text \<open>
  C2 (as amended). \<^verbatim>\<open>isFormalResponseStarted\<close> is true exactly for the texts that start
  with the begin token followed by the end of the text or by a character other than a
  backtick, a period and a space. So it is true for the token alone and for the token
  followed by a line break and \<^verbatim>\<open>Hello\<close>, false for the token followed by \<^verbatim>\<open> Hello\<close> (the
  space is in the excluded set) and by \<^verbatim>\<open>. ok\<close>, and false for every text that does not
  start with the token.
\<close>

theorem hasAnswerStarted_cases:
  "isFormalResponseStarted BEGIN_TOKEN
   \<and> isFormalResponseStarted (BEGIN_TOKEN @ ''\<newline>Hello'')
   \<and> \<not> isFormalResponseStarted (BEGIN_TOKEN @ '' Hello'')
   \<and> \<not> isFormalResponseStarted (BEGIN_TOKEN @ ''. ok'')
   \<and> (\<forall>t. isFormalResponseStarted t =
          (\<exists>r. t = BEGIN_TOKEN @ r \<and> (r = [] \<or> hd r \<notin> set [CHR 0x60, CHR ''.'', CHR '' ''])))"
proof -
  have "isFormalResponseStarted t =
          (\<exists>r. t = BEGIN_TOKEN @ r \<and> (r = [] \<or> hd r \<notin> set [CHR 0x60, CHR ''.'', CHR '' '']))"
    for t
    unfolding isFormalResponseStarted_iff
    by (cases "drop (length BEGIN_TOKEN) t") (auto simp: prefix_def)
  moreover have "isFormalResponseStarted BEGIN_TOKEN"
    "isFormalResponseStarted (BEGIN_TOKEN @ ''\<newline>Hello'')"
    "\<not> isFormalResponseStarted (BEGIN_TOKEN @ '' Hello'')"
    "\<not> isFormalResponseStarted (BEGIN_TOKEN @ ''. ok'')"
    by (simp_all add: isFormalResponseStarted_iff)
  ultimately show ?thesis by blast
qed

text \<open>The claim as written says the detector accepts the token followed by \<^verbatim>\<open> Hello\<close>.\<close>

theorem hasAnswerStarted_space_counterexample:
  "\<not> isFormalResponseStarted (''[RESPONSE_BEGIN]'' @ '' Hello'')"
  using isFormalResponseStarted_iff [of "''[RESPONSE_BEGIN] Hello''"]
  by (simp add: BEGIN_TOKEN_def)

section \<open>Marker stripping\<close>

text \<open>
  C7 (as amended). Stripping undoes injection: for every text \<open>t\<close>,
  \<^verbatim>\<open>cleanFinalText\<close> with both flags applied to the begin token, \<open>t\<close> and the finish token,
  each token with or without one adjacent white-space character and any white space
  after the finish token, gives back \<open>t\<close>, provided that \<open>t\<close> does not begin with white
  space when its separator from the begin token is empty and does not end with white
  space when its separator from the finish token is empty.
\<close>

theorem stripMarkers_roundtrip:
  assumes "opt_space pre" and "opt_space m1" and "opt_space m2" and "all_space trail"
    and front: "m1 = [] \<Longrightarrow> t = [] \<or> \<not> is_space (hd t)"
    and rear: "m2 = [] \<Longrightarrow> t = [] \<or> \<not> is_space (last t)"
  shows "cleanFinalText (pre @ BEGIN_TOKEN @ m1 @ t @ m2 @ FINISHED_TOKEN @ trail) True True = t"
proof -
  have m1: "m1 = [] \<or> (\<exists>w. m1 = [w] \<and> is_space w)"
    and m2: "m2 = [] \<or> (\<exists>w. m2 = [w] \<and> is_space w)"
    and trail: "list_all is_space trail"
    using assms by (simp_all add: opt_space_cases all_space_def)
  have "\<exists>m2'. opt_space m2' \<and> (m2' = [] \<longrightarrow> t = [] \<or> \<not> is_space (last t))
     \<and> strip1 (m1 @ t @ m2 @ FINISHED_TOKEN @ trail) = t @ m2' @ FINISHED_TOKEN @ trail"
  proof (cases m1)
    case (Cons w ws)
    then have "m1 = [w]" "is_space w" using m1 by auto
    then show ?thesis using assms(3) rear by (auto simp: strip1_def)
  next
    case Nil
    show ?thesis
    proof (cases t)
      case (Cons c cs)
      then have "\<not> is_space c" using front Nil by simp
      then show ?thesis using Nil Cons assms(3) rear by (auto simp: strip1_def)
    next
      case tnil: Nil
      show ?thesis
      proof (cases m2)
        case Nil
        obtain c cs where "FINISHED_TOKEN @ trail = c # cs" "\<not> is_space c"
          using FINISHED_TOKEN_head [of trail] by auto
        then have "strip1 (FINISHED_TOKEN @ trail) = FINISHED_TOKEN @ trail"
          by (simp add: strip1_def)
        then show ?thesis using Nil tnil \<open>m1 = []\<close> by (auto simp: opt_space_def)
      next
        case (Cons w ws)
        then have "m2 = [w]" "is_space w" using m2 by auto
        then show ?thesis using tnil \<open>m1 = []\<close> by (auto simp: strip1_def opt_space_def)
      qed
    qed
  qed
  then obtain m2' where m2': "opt_space m2'"
     "m2' = [] \<Longrightarrow> t = [] \<or> \<not> is_space (last t)"
     "strip1 (m1 @ t @ m2 @ FINISHED_TOKEN @ trail) = t @ m2' @ FINISHED_TOKEN @ trail"
    by blast
  have "rx_remove finish_rx (t @ m2' @ FINISHED_TOKEN @ trail) = t"
    using rx_remove_finish [OF trail m2'(1) m2'(2)] by simp
  then show ?thesis
    unfolding cleanFinalText_def Let_def using rx_remove_begin [OF assms(1)] m2'(3)
    by simp
qed

theorem stripMarkers_roundtrip_witness:
  "opt_space [] \<and> opt_space ''\<newline>'' \<and> opt_space [] \<and> all_space '' \<newline>''
   \<and> cleanFinalText
       ([] @ BEGIN_TOKEN @ ''\<newline>'' @ '' two words'' @ [] @ FINISHED_TOKEN @ '' \<newline>'')
       True True = '' two words''"
proof -
  have a: "opt_space []" "opt_space ''\<newline>''" "all_space '' \<newline>''"
    by (simp_all add: opt_space_def all_space_def is_space_def)
  show ?thesis
    using a stripMarkers_roundtrip [OF a(1) a(2) a(1) a(3), of "'' two words''"]
    by (simp add: is_space_def)
qed

text \<open>The claim as written covers every marker-free text, also with no separator: a text
  that begins with white space loses it.\<close>

theorem stripMarkers_roundtrip_counterexample:
  "\<not> str_includes '' x'' BEGIN_TOKEN \<and> \<not> str_includes '' x'' FINISHED_TOKEN
   \<and> cleanFinalText (BEGIN_TOKEN @ '' x'' @ FINISHED_TOKEN) True True = ''x''"
  by code_simp

section \<open>Continuation requests\<close>

lemma scan_down_Some:
  "scan_down P xs n = Some i \<Longrightarrow> i < n \<and> P (xs ! i) \<and> (\<forall>j. i < j \<and> j < n \<longrightarrow> \<not> P (xs ! j))"
proof (induction n)
  case 0
  then show ?case by simp
next
  case (Suc n)
  show ?case
  proof (cases "P (xs ! n)")
    case True
    then have "i = n" using Suc.prems by simp
    then show ?thesis using True by auto
  next
    case False
    then have "scan_down P xs n = Some i" using Suc.prems by simp
    from Suc.IH [OF this] show ?thesis using False less_Suc_eq by auto
  qed
qed

lemma scan_down_None:
  "scan_down P xs n = None \<Longrightarrow> j < n \<Longrightarrow> \<not> P (xs ! j)"
  by (induction n) (auto split: if_splits simp: less_Suc_eq)

lemma last_index_Some:
  "last_index P xs = Some i \<Longrightarrow>
     i < length xs \<and> P (xs ! i) \<and> (\<forall>j. i < j \<and> j < length xs \<longrightarrow> \<not> P (xs ! j))"
  unfolding last_index_def by (rule scan_down_Some)

lemma last_index_None: "last_index P xs = None \<Longrightarrow> \<not> list_ex P xs"
  unfolding last_index_def list_ex_length using scan_down_None [of P xs "length xs"] by blast

lemma contents_list_normalize [simp]:
  "contents_list (normalizeSystemInstruction b) = contents_list b"
  by (simp add: contents_list_def normalizeSystemInstruction_def)

text \<open>
  C8. \<^verbatim>\<open>buildRetryRequest\<close> with the new text \<open>t\<close>: when the content list is missing or
  empty, or its last entry is not of role \<^verbatim>\<open>model\<close>, the new content list is the old one
  with one new \<^verbatim>\<open>model\<close> entry holding \<open>t\<close> appended; when the last entry is of role
  \<^verbatim>\<open>model\<close> and one of its parts has a \<^verbatim>\<open>text\<close> property, \<open>t\<close> is appended to the text of
  the last such part, every other part and entry stays as it is, and the number of parts
  of that entry is unchanged.
\<close>

theorem buildContinuation_cases:
  "(contents_list b = [] \<or> role (last (contents_list b)) \<noteq> Some ''model'' \<longrightarrow>
      contents (buildRetryRequest b t) =
        Some (contents_list b @ [\<lparr>role = Some ''model'', parts = Some [text_part t]\<rparr>]))
   \<and> (contents_list b \<noteq> [] \<and> role (last (contents_list b)) = Some ''model''
        \<and> parts (last (contents_list b)) = Some ps \<and> list_ex has_text ps \<longrightarrow>
      (\<exists>i < length ps.
          has_text (ps ! i) \<and> (\<forall>j. i < j \<and> j < length ps \<longrightarrow> \<not> has_text (ps ! j))
          \<and> contents (buildRetryRequest b t) =
              Some (butlast (contents_list b) @
                    [(last (contents_list b))
                       \<lparr>parts := Some (ps[i := (ps ! i)\<lparr>ptext := Some (the_text (ps ! i) @ t)\<rparr>])\<rparr>])
          \<and> length (ps[i := (ps ! i)\<lparr>ptext := Some (the_text (ps ! i) @ t)\<rparr>]) = length ps))"
proof (intro conjI impI)
  assume "contents_list b = [] \<or> role (last (contents_list b)) \<noteq> Some ''model''"
  then show "contents (buildRetryRequest b t) =
        Some (contents_list b @ [\<lparr>role = Some ''model'', parts = Some [text_part t]\<rparr>])"
    by (auto simp: buildRetryRequest_def Let_def)
next
  assume a: "contents_list b \<noteq> [] \<and> role (last (contents_list b)) = Some ''model''
        \<and> parts (last (contents_list b)) = Some ps \<and> list_ex has_text ps"
  then have "ps \<noteq> []" by auto
  from a obtain i where i: "last_index has_text ps = Some i"
    using last_index_None [of has_text ps] by (cases "last_index has_text ps") auto
  from last_index_Some [OF i] a \<open>ps \<noteq> []\<close> i
  show "\<exists>i < length ps.
          has_text (ps ! i) \<and> (\<forall>j. i < j \<and> j < length ps \<longrightarrow> \<not> has_text (ps ! j))
          \<and> contents (buildRetryRequest b t) =
              Some (butlast (contents_list b) @
                    [(last (contents_list b))
                       \<lparr>parts := Some (ps[i := (ps ! i)\<lparr>ptext := Some (the_text (ps ! i) @ t)\<rparr>])\<rparr>])
          \<and> length (ps[i := (ps ! i)\<lparr>ptext := Some (the_text (ps ! i) @ t)\<rparr>]) = length ps"
    by (intro exI [of _ i]) (simp add: buildRetryRequest_def Let_def)
qed

theorem buildContinuation_cases_witness:
  "contents (buildRetryRequest sample_user_body ''abc'') =
     Some (contents_list sample_user_body
           @ [\<lparr>role = Some ''model'', parts = Some [text_part ''abc'']\<rparr>])
   \<and> (\<exists>i < length sample_parts.
          has_text (sample_parts ! i)
          \<and> (\<forall>j. i < j \<and> j < length sample_parts \<longrightarrow> \<not> has_text (sample_parts ! j))
          \<and> contents (buildRetryRequest sample_model_body ''abc'') =
              Some (butlast (contents_list sample_model_body) @
                    [(last (contents_list sample_model_body))
                       \<lparr>parts := Some (sample_parts[i := (sample_parts ! i)
                           \<lparr>ptext := Some (the_text (sample_parts ! i) @ ''abc'')\<rparr>])\<rparr>])
          \<and> length (sample_parts[i := (sample_parts ! i)
                \<lparr>ptext := Some (the_text (sample_parts ! i) @ ''abc'')\<rparr>]) = length sample_parts)"
proof -
  have h1: "contents_list sample_user_body = []
      \<or> role (last (contents_list sample_user_body)) \<noteq> Some ''model''"
    by (simp add: contents_list_def sample_user_body_def)
  have h2: "contents_list sample_model_body \<noteq> []
      \<and> role (last (contents_list sample_model_body)) = Some ''model''
      \<and> parts (last (contents_list sample_model_body)) = Some sample_parts
      \<and> list_ex has_text sample_parts"
    by (simp add: contents_list_def sample_model_body_def sample_parts_def has_text_def
        text_part_def)
  from buildContinuation_cases [of sample_user_body "''abc''", THEN conjunct1, rule_format, OF h1]
    buildContinuation_cases [of sample_model_body "''abc''" sample_parts, THEN conjunct2,
      THEN mp, OF h2]
  show ?thesis by (rule conjI)
qed

section \<open>Exhausted retries\<close>

lemma accumulate_parts_append:
  "accumulate_parts st (ps @ qs) = accumulate_parts (accumulate_parts st ps) qs"
  by (simp add: accumulate_parts_def)

lemma accumulate_parts_Cons:
  "accumulate_parts st (p # ps) = accumulate_parts (accumulate_part st p) ps"
  by (simp add: accumulate_parts_def)

lemma accumulate_parts_texts:
  "thoughtAccumulatedText (accumulate_parts st ps) = thought_text_of st ps
   \<and> formalAccumulatedText (accumulate_parts st ps) = formal_text_of st ps"
proof (induction ps arbitrary: st)
  case Nil
  show ?case
    by (simp add: accumulate_parts_def thought_text_of_def formal_text_of_def unflagged_texts_def)
next
  case (Cons p ps)
  show ?case
  proof (cases "text_truthy p \<and> \<not> thought p")
    case False
    then have "accumulate_part st p = st" "unflagged_texts (p # ps) = unflagged_texts ps"
      by (auto simp: accumulate_part_def unflagged_texts_def)
    then show ?thesis
      using Cons.IH [of st]
      by (simp add: accumulate_parts_Cons thought_text_of_def formal_text_of_def)
  next
    case True
    then have u: "unflagged_texts (p # ps) = the_text p # unflagged_texts ps"
      by (simp add: unflagged_texts_def)
    show ?thesis
      using Cons.IH [of "accumulate_part st p"] True
      by (simp add: accumulate_parts_Cons u thought_text_of_def formal_text_of_def
            accumulate_part_def)
  qed
qed

lemma never_completes_run:
  "never_completes cfg fetch attempts b st \<Longrightarrow>
     nonstream_loop cfg fetch attempts b st =
       (Max_retries
          (exhausted_parts
             (accumulate_parts st (concat (map resp_parts (responses cfg fetch attempts b st)))))
          ''MAX_RETRIES'',
        max attempts (maxRetries cfg + 1))
     \<and> int (length (responses cfg fetch attempts b st)) = max 0 (maxRetries cfg + 1 - attempts)"
proof (induction "nat (maxRetries cfg + 1 - attempts)" arbitrary: attempts b st)
  case 0
  then have "\<not> attempts \<le> maxRetries cfg" by simp
  then show ?case
    by (subst nonstream_loop.simps, subst responses.simps, subst responses.simps)
       (simp add: accumulate_parts_def)
next
  case (Suc n)
  then have le: "attempts \<le> maxRetries cfg" by simp
  from Suc.prems le obtain r where
    r: "fetch (attempts + 1) b = Http_ok r"
    "\<not> anyFunctionCall (resp_parts r)"
    by (subst (asm) never_completes.simps) (auto split: upstream_result.splits)
  define st' where "st' = accumulate_parts st (resp_parts r)"
  define b' where
    "b' = buildRetryRequest b (thoughtAccumulatedText st' @ formalAccumulatedText st')"
  from Suc.prems le r have
    inc: "\<not> (isThoughtFinished st' \<and> isResponseComplete (formalAccumulatedText st'))"
    and rest: "never_completes cfg fetch (attempts + 1) b' st'"
    by (subst (asm) never_completes.simps; simp add: Let_def st'_def b'_def)+
  have "n = nat (maxRetries cfg + 1 - (attempts + 1))" using Suc.hyps(2) by simp
  note IH = Suc.hyps(1) [OF this rest]
  have loop: "nonstream_loop cfg fetch attempts b st
      = nonstream_loop cfg fetch (attempts + 1) b' st'"
    using le r inc by (subst nonstream_loop.simps) (auto simp: Let_def st'_def b'_def)
  have resp: "responses cfg fetch attempts b st = r # responses cfg fetch (attempts + 1) b' st'"
    using le r by (subst responses.simps) (simp add: Let_def st'_def b'_def)
  have m: "max (attempts + 1) (maxRetries cfg + 1) = max attempts (maxRetries cfg + 1)"
    using le by simp
  show ?case
    unfolding loop resp using IH le
    by (simp add: m accumulate_parts_append st'_def [symmetric])
qed

lemma responses_first:
  assumes "never_completes cfg fetch attempts b st" and "attempts \<le> maxRetries cfg"
  shows "\<exists>r rs. fetch (attempts + 1) b = Http_ok r \<and> responses cfg fetch attempts b st = r # rs"
proof -
  from assms obtain r where r: "fetch (attempts + 1) b = Http_ok r"
    by (subst (asm) never_completes.simps) (auto split: upstream_result.splits)
  with assms(2) show ?thesis
    by (subst responses.simps) (simp add: Let_def)
qed

text \<open>
  C6. When every \<^verbatim>\<open>ok\<close> response of the upstream leaves the accumulated text incomplete
  (and none carries a function call), the non-streaming loop makes exactly
  \<^verbatim>\<open>maxRetries + 1\<close> upstream calls, exactly one for \<^verbatim>\<open>maxRetries = 0\<close> (the call with the
  request body it was started with), and then returns with HTTP status 200 the body whose
  completion reason is \<^verbatim>\<open>MAX_RETRIES\<close> and whose parts are the thought text of the run,
  flagged as thought (left out when empty), and the formal text of the run, cleaned of the
  tokens and followed by a line break and the incomplete token: a best-effort response, not
  an error. The thought and the formal text are those of the parts of all the responses
  received, \<open>rs\<close>.
\<close>

theorem exhausted_retries_best_effort:
  assumes "never_completes cfg fetch 0 b st" and "0 \<le> maxRetries cfg"
  shows "\<exists>r rs. fetch 1 b = Http_ok r \<and> responses cfg fetch 0 b st = r # rs
           \<and> int (length (r # rs)) = maxRetries cfg + 1
           \<and> nonstream_loop cfg fetch 0 b st =
               (Max_retries
                  ((if thought_text_of st (concat (map resp_parts (r # rs))) \<noteq> []
                    then [thought_part (thought_text_of st (concat (map resp_parts (r # rs))))]
                    else [])
                   @ [text_part
                        (cleanFinalText (formal_text_of st (concat (map resp_parts (r # rs))))
                           True True
                         @ ''\<newline>'' @ INCOMPLETE_TOKEN)])
                  ''MAX_RETRIES'',
                maxRetries cfg + 1)
           \<and> reply_status (fst (nonstream_loop cfg fetch 0 b st)) = Some 200"
proof -
  from responses_first [OF assms] obtain r rs where
    r: "fetch 1 b = Http_ok r" "responses cfg fetch 0 b st = r # rs"
    by auto
  have m: "max 0 (maxRetries cfg + 1) = maxRetries cfg + 1" using assms(2) by simp
  from never_completes_run [OF assms(1)] r m
  have "nonstream_loop cfg fetch 0 b st =
       (Max_retries
          (exhausted_parts (accumulate_parts st (concat (map resp_parts (r # rs)))))
          ''MAX_RETRIES'', maxRetries cfg + 1)"
    and "int (length (r # rs)) = maxRetries cfg + 1"
    by simp_all
  with r show ?thesis
    by (intro exI [of _ r] exI [of _ rs])
       (simp add: exhausted_parts_def accumulate_parts_texts)
qed

theorem exhausted_retries_best_effort_witness:
  "never_completes sample_config sample_fetch 0 sample_user_body sample_state
   \<and> 0 \<le> maxRetries sample_config
   \<and> responses sample_config sample_fetch 0 sample_user_body sample_state = [sample_response]
   \<and> nonstream_loop sample_config sample_fetch 0 sample_user_body sample_state =
       (Max_retries
          [thought_part ''Here is a'',
           text_part ''partial answer\<newline>[RESPONSE_NOT_FINISHED]'']
          ''MAX_RETRIES'', 1)
   \<and> reply_status (fst (nonstream_loop sample_config sample_fetch 0 sample_user_body
        sample_state)) = Some 200"
proof -
  have h: "never_completes sample_config sample_fetch 0 sample_user_body sample_state"
    by code_simp
  have z: "0 \<le> maxRetries sample_config" "maxRetries sample_config + 1 = 1"
    by (simp_all add: sample_config_def)
  have t: "thought_text_of sample_state (resp_parts sample_response) = ''Here is a''"
    and f: "cleanFinalText (formal_text_of sample_state (resp_parts sample_response)) True True
            = ''partial answer''"
    by code_simp+
  from exhausted_retries_best_effort [OF h z(1)] obtain r rs where
    a: "sample_fetch 1 sample_user_body = Http_ok r"
      "responses sample_config sample_fetch 0 sample_user_body sample_state = r # rs"
      "int (length (r # rs)) = maxRetries sample_config + 1"
      "nonstream_loop sample_config sample_fetch 0 sample_user_body sample_state =
               (Max_retries
                  ((if thought_text_of sample_state (concat (map resp_parts (r # rs))) \<noteq> []
                    then [thought_part
                            (thought_text_of sample_state (concat (map resp_parts (r # rs))))]
                    else [])
                   @ [text_part
                        (cleanFinalText
                           (formal_text_of sample_state (concat (map resp_parts (r # rs))))
                           True True
                         @ ''\<newline>'' @ INCOMPLETE_TOKEN)])
                  ''MAX_RETRIES'',
                maxRetries sample_config + 1)"
      "reply_status (fst (nonstream_loop sample_config sample_fetch 0 sample_user_body
         sample_state)) = Some 200"
    by blast
  from a(1) have r: "r = sample_response" by (simp add: sample_fetch_def)
  from a(3) z(2) have rs: "rs = []" by simp
  show ?thesis
    using h z(1) a(2,4,5) unfolding r rs by (simp add: t f z(2) INCOMPLETE_TOKEN_def)
qed

section \<open>Thought-flagged parts in the non-streaming loop\<close>

lemma accumulate_part_thought: "thought p \<Longrightarrow> accumulate_part st p = st"
  by (simp add: accumulate_part_def)

lemma accumulate_parts_filter:
  "accumulate_parts st ps = accumulate_parts st (filter (\<lambda>p. \<not> thought p) ps)"
  unfolding accumulate_parts_def
  by (induction ps arbitrary: st) (simp_all add: accumulate_part_thought)

lemma accumulate_parts_finished:
  "isThoughtFinished st \<Longrightarrow>
     isThoughtFinished (accumulate_parts st ps)
     \<and> thoughtAccumulatedText (accumulate_parts st ps) = thoughtAccumulatedText st"
  unfolding accumulate_parts_def
  by (induction ps arbitrary: st) (simp_all add: accumulate_part_def)

lemma accumulate_parts_thought_text:
  "\<not> isThoughtFinished st \<Longrightarrow>
     thoughtAccumulatedText (accumulate_parts st ps) =
       thoughtAccumulatedText st @
       concat (map the_text
         (takeWhile (\<lambda>p. \<not> isFormalResponseStarted (the_text p))
            (filter (\<lambda>p. text_truthy p \<and> \<not> thought p) ps)))"
proof (induction ps arbitrary: st)
  case Nil
  show ?case by (simp add: accumulate_parts_def)
next
  case (Cons p ps)
  have step: "accumulate_parts st (p # ps) = accumulate_parts (accumulate_part st p) ps"
    by (simp add: accumulate_parts_def)
  show ?case
  proof (cases "text_truthy p \<and> \<not> thought p")
    case False
    then have a: "accumulate_part st p = st" by (auto simp: accumulate_part_def)
    have f: "filter (\<lambda>p. text_truthy p \<and> \<not> thought p) (p # ps)
        = filter (\<lambda>p. text_truthy p \<and> \<not> thought p) ps"
      using False by simp
    show ?thesis unfolding step a f by (rule Cons.IH [OF Cons.prems])
  next
    case True
    show ?thesis
    proof (cases "isFormalResponseStarted (the_text p)")
      case started: True
      have "isThoughtFinished (accumulate_part st p)"
        "thoughtAccumulatedText (accumulate_part st p) = thoughtAccumulatedText st"
        using True started Cons.prems by (simp_all add: accumulate_part_def)
      then show ?thesis
        using accumulate_parts_finished [of "accumulate_part st p" ps] True started
        by (simp add: step)
    next
      case False
      have "\<not> isThoughtFinished (accumulate_part st p)"
        "thoughtAccumulatedText (accumulate_part st p) = thoughtAccumulatedText st @ the_text p"
        using True False Cons.prems by (simp_all add: accumulate_part_def)
      then show ?thesis
        using Cons.IH [of "accumulate_part st p"] True False by (simp add: step)
    qed
  qed
qed

lemma retext_part_keeps:
  "thought (retext_part f p) = thought p" "functionCall (retext_part f p) = functionCall p"
  "\<not> thought p \<Longrightarrow> retext_part f p = p"
  by (simp_all add: retext_part_def)

lemma accumulate_parts_retext:
  "accumulate_parts st (resp_parts (retext f r)) = accumulate_parts st (resp_parts r)"
proof -
  have "filter (\<lambda>p. \<not> thought p) (map (retext_part f) ps) = filter (\<lambda>p. \<not> thought p) ps" for ps
    by (induction ps) (simp_all add: retext_part_keeps)
  then show ?thesis
    using accumulate_parts_filter [of st "resp_parts (retext f r)"]
      accumulate_parts_filter [of st "resp_parts r"]
    by (simp add: retext_def)
qed

lemma functionCall_retext:
  "anyFunctionCall (resp_parts (retext f r)) = anyFunctionCall (resp_parts r)"
  by (simp add: anyFunctionCall_def retext_def list_ex_iff retext_part_keeps)

lemma nonstream_loop_retext:
  "nonstream_loop cfg (\<lambda>k b. retext_result f (fetch k b)) attempts b st
     = map_prod (retext_reply f) id (nonstream_loop cfg fetch attempts b st)"
proof (induction "nat (maxRetries cfg + 1 - attempts)" arbitrary: attempts b st)
  case 0
  then have "\<not> attempts \<le> maxRetries cfg" by simp
  then show ?case
    by (subst nonstream_loop.simps, subst (2) nonstream_loop.simps) simp
next
  case (Suc n)
  then have le: "attempts \<le> maxRetries cfg" by simp
  have n: "n = nat (maxRetries cfg + 1 - (attempts + 1))" using Suc.hyps(2) by simp
  note IH = Suc.hyps(1) [OF n]
  note unf = nonstream_loop.simps [of cfg "\<lambda>k b. retext_result f (fetch k b)" attempts b st]
    nonstream_loop.simps [of cfg fetch attempts b st]
  show ?case
  proof (cases "fetch (attempts + 1) b")
    case (Fetch_failed m)
    then show ?thesis using le IH [of b st] by (simp add: unf)
  next
    case (Http_error status e)
    then show ?thesis using le IH [of b st] by (simp add: unf)
  next
    case (Http_ok r)
    have r: "retext f r\<lparr>resp_parts := ps\<rparr> = r\<lparr>resp_parts := ps\<rparr>" for ps
      by (simp add: retext_def)
    show ?thesis
      using le IH Http_ok
      by (simp add: unf functionCall_retext accumulate_parts_retext Let_def r)
  qed
qed

text \<open>
  C10 (as amended). In the non-streaming loop a part whose thought flag is set is skipped:
  accumulating it changes nothing, so accumulating the parts of a response is accumulating
  its unflagged parts. The accumulated thought text is the text it started with (the seed
  phrase) followed by the texts of the unflagged text parts before the part that starts the
  formal answer. So the text of thought-flagged parts never appears in a reply the handler
  builds itself, on the complete and on the exhausted outcome: replacing that text in every
  upstream response by any other text leaves the number of upstream calls and every such
  reply unchanged. A response that carries a function call is not rebuilt: it is returned
  as it came from upstream, and only there the replaced text shows.
\<close>

theorem thought_flagged_parts_skipped:
  "accumulate_part st (p\<lparr>thought := True\<rparr>) = st
   \<and> accumulate_parts st ps = accumulate_parts st (filter (\<lambda>p. \<not> thought p) ps)
   \<and> thoughtAccumulatedText (accumulate_parts st ps) =
       (if isThoughtFinished st then thoughtAccumulatedText st
        else thoughtAccumulatedText st @
             concat (map the_text
               (takeWhile (\<lambda>p. \<not> isFormalResponseStarted (the_text p))
                  (filter (\<lambda>p. text_truthy p \<and> \<not> thought p) ps))))
   \<and> nonstream_loop cfg (\<lambda>k b. retext_result f (fetch k b)) attempts b st
       = map_prod (retext_reply f) id (nonstream_loop cfg fetch attempts b st)"
  using accumulate_parts_filter [of st ps] accumulate_parts_finished [of st ps]
    accumulate_parts_thought_text [of st ps] nonstream_loop_retext [of cfg f fetch attempts b st]
  by (simp add: accumulate_part_thought)

text \<open>The claim as written says that thought-flagged text from upstream never appears
  in the parts of the final response. A response with a function call is handed on with
  its thought-flagged part.\<close>

theorem thought_flagged_parts_forwarded_counterexample:
  "nonstream_loop sample_config sample_call_fetch 0 sample_user_body sample_state =
     (Forwarded sample_call_response, 1)
   \<and> reply_parts (fst (nonstream_loop sample_config sample_call_fetch 0 sample_user_body
        sample_state)) =
     [thought_part ''hidden reasoning'',
      \<lparr>ptext = None, thought = False, functionCall = Some ''f''\<rparr>]
   \<and> thought (thought_part ''hidden reasoning'')
   \<and> ptext (thought_part ''hidden reasoning'') = Some ''hidden reasoning''"
  by code_simp

section \<open>Function calls in the stream\<close>

text \<open>
  C4, at a concrete stream. The upstream sends a function-call event and a text event. When
  both arrive in one chunk, the engine writes the function-call event and nothing after it:
  the text event, later in the same chunk, is buffered as before and the stream is closed
  without it. When the text event arrives in a chunk of its own, its bytes are written
  through. In both runs one upstream call is made.
\<close>

theorem passthrough_after_function_call_samples:
  "stream_loop sample_config True sample_parse
      (\<lambda>k b. Stream_ok [''data: F\<newline>\<newline>data: Thi\<newline>\<newline>''] Ends) 0 sample_user_body False []
     = ([Wire_data (seed_event ''Here is a''), Wire_event ''data: F'' sample_call_event], 1)
   \<and> stream_loop sample_config True sample_parse
      (\<lambda>k b. Stream_ok [''data: F\<newline>\<newline>'', ''data: Thi\<newline>\<newline>''] Ends) 0 sample_user_body False []
     = ([Wire_data (seed_event ''Here is a''), Wire_event ''data: F'' sample_call_event,
         Wire ''data: Thi\<newline>\<newline>''], 1)"
  by code_simp

section \<open>Upstream failures\<close>

text \<open>
  C5, at a concrete upstream. With \<^verbatim>\<open>maxRetries = 5\<close> and an upstream that always answers
  404, the non-streaming loop gives up after 4 calls (the cap for statuses that are neither
  fatal nor retryable) and returns the upstream status and body; the streaming loop makes
  6 calls (\<^verbatim>\<open>maxRetries + 1\<close>) before it writes the error frame. The same holds for an
  upstream whose calls all fail in transport: 4 calls against 6. A fatal status ends both
  loops at the first call.
\<close>

theorem failure_caps_samples:
  "nonstream_loop sample_config5 (\<lambda>k b. Http_error 404 ''nf'') 0 sample_user_body sample_state
     = (Json_error 404 ''Upstream API error after max retries.'' ''nf'', 4)
   \<and> stream_loop sample_config5 True sample_parse (\<lambda>k b. Stream_http_error 404 ''nf'') 0
       sample_user_body False []
     = ([Wire_data (seed_event ''Here is a''),
         Wire_error 404 ''Upstream API error after max retries.'' ''nf''], 6)
   \<and> nonstream_loop sample_config5 (\<lambda>k b. Fetch_failed ''down'') 0 sample_user_body sample_state
     = (Json_error 500 ''Internal Server Error after max retries.'' ''down'', 4)
   \<and> stream_loop sample_config5 True sample_parse (\<lambda>k b. Stream_fetch_failed ''down'') 0
       sample_user_body False []
     = ([Wire_data (seed_event ''Here is a''),
         Wire_error 500 ''Internal Server Error after max retries.'' ''down''], 6)
   \<and> nonstream_loop sample_config5 (\<lambda>k b. Http_error 500 ''boom'') 0 sample_user_body sample_state
     = (Json_error 500 ''Upstream API returned a fatal error.'' ''boom'', 1)
   \<and> stream_loop sample_config5 True sample_parse (\<lambda>k b. Stream_http_error 500 ''boom'') 0
       sample_user_body False []
     = ([Wire_data (seed_event ''Here is a''),
         Wire_error 500 ''Upstream API returned a fatal error.'' ''boom''], 1)"
  by code_simp

section \<open>Event framing\<close>

lemma ms_Seq_Chr:
  "ms (Seq (Chr c) r) n s = (case s of [] \<Rightarrow> [] | x # xs \<Rightarrow> if x = c then ms r n xs else [])"
  by (cases s) simp_all

lemma ms_Seq_Opt_Chr:
  "ms (Seq (Opt (Chr c)) r) n s =
     (case s of [] \<Rightarrow> ms r n [] | x # xs \<Rightarrow> if x = c then ms r n xs @ ms r n s else ms r n s)"
  by (cases s) simp_all

lemma ms_sep_1: "ms (Chr lf) n s = (if prefix [lf] s then [drop 1 s] else [])"
  by (cases s) simp_all

lemma ms_sep_2:
  "cr \<noteq> lf \<Longrightarrow> ms (Seq (Opt (Chr cr)) (Chr lf)) n s =
     (if prefix [cr, lf] s then [drop 2 s] else if prefix [lf] s then [drop 1 s] else [])"
  unfolding ms_Seq_Opt_Chr ms_sep_1 by (cases s) auto

lemma ms_sep_3:
  "cr \<noteq> lf \<Longrightarrow> ms (Seq (Chr lf) (Seq (Opt (Chr cr)) (Chr lf))) n s =
     (if prefix [lf, cr, lf] s then [drop 3 s] else if prefix [lf, lf] s then [drop 2 s] else [])"
  unfolding ms_Seq_Chr by (cases s) (simp_all add: ms_sep_2 del: ms.simps)

lemma ms_sep_generic:
  assumes "cr \<noteq> lf"
  shows "ms (Seq (Opt (Chr cr)) (Seq (Chr lf) (Seq (Opt (Chr cr)) (Chr lf)))) n s =
     (if prefix [cr, lf, cr, lf] s then [drop 4 s]
      else if prefix [cr, lf, lf] s then [drop 3 s]
      else if prefix [lf, cr, lf] s then [drop 3 s]
      else if prefix [lf, lf] s then [drop 2 s]
      else [])"
  unfolding ms_Seq_Opt_Chr [of cr]
  using assms by (cases s) (auto simp: ms_sep_3 simp del: ms.simps)

lemma ms_event_sep:
  "ms event_sep_rx n s = (if 0 < sep_len s then [drop (sep_len s) s] else [])"
  unfolding event_sep_rx_def sep_len_def sep_len_of_def
  by (subst ms_sep_generic) simp_all

lemma list4_cases:
  obtains "s = []" | x where "s = [x]" | x y where "s = [x, y]" | x y z where "s = [x, y, z]"
  | x y z w r where "s = x # y # z # w # r"
  by (metis list.exhaust)

lemma sep_len_of_le: "sep_len_of cr lf s \<le> length s"
  by (auto simp: sep_len_of_def prefix_def)

lemma sep_len_of_pos:
  "0 < sep_len_of cr lf s \<longleftrightarrow>
     (\<exists>r. s = cr # lf # cr # lf # r \<or> s = cr # lf # lf # r \<or> s = lf # cr # lf # r
          \<or> s = lf # lf # r)"
  by (auto simp: sep_len_of_def prefix_def)

lemma sep_len_of_values:
  assumes "cr \<noteq> lf"
  shows "sep_len_of cr lf (cr # lf # cr # lf # r) = 4"
    and "sep_len_of cr lf (cr # lf # lf # r) = 3"
    and "sep_len_of cr lf (lf # cr # lf # r) = 3"
    and "sep_len_of cr lf (lf # lf # r) = 2"
  using assms by (simp_all add: sep_len_of_def)

lemma sep_len_of_append:
  assumes "cr \<noteq> lf" and "0 < sep_len_of cr lf a"
  shows "sep_len_of cr lf (a @ c) = sep_len_of cr lf a"
proof -
  from assms(2) obtain r where
    "a = cr # lf # cr # lf # r \<or> a = cr # lf # lf # r \<or> a = lf # cr # lf # r \<or> a = lf # lf # r"
    unfolding sep_len_of_pos by blast
  then show ?thesis
    by (elim disjE) (simp_all add: sep_len_of_values [OF assms(1)])
qed

lemma sep_len_of_zero:
  "sep_len_of cr lf s = 0 \<longleftrightarrow>
     \<not> (\<exists>r. s = cr # lf # cr # lf # r \<or> s = cr # lf # lf # r \<or> s = lf # cr # lf # r
            \<or> s = lf # lf # r)"
proof -
  have "sep_len_of cr lf s = 0 \<longleftrightarrow> \<not> 0 < sep_len_of cr lf s" by simp
  then show ?thesis unfolding sep_len_of_pos .
qed

lemma sep_len_of_straddle:
  assumes "cr \<noteq> lf" and "sep_len_of cr lf a = 0" and "0 < sep_len_of cr lf (a @ c)"
  shows "sep_len_of cr lf (drop i (tl a)) = 0"
proof (cases a rule: list4_cases)
  case (5 x y z w r)
  then show ?thesis using assms(2,3) unfolding sep_len_of_zero sep_len_of_pos by auto
next
  case (4 x y z)
  have "drop i [y, z] = [y, z] \<or> drop i [y, z] = [z] \<or> drop i [y, z] = []"
    by (cases i; cases "i - 1") auto
  then show ?thesis
    using 4 assms unfolding sep_len_of_zero sep_len_of_pos by auto
next
  case (3 x y)
  have "drop i [y] = [y] \<or> drop i [y] = []" by (cases i) auto
  then show ?thesis using 3 unfolding sep_len_of_zero by auto
qed (auto simp: sep_len_of_zero)

lemma sep_len_le: "sep_len s \<le> length s"
  unfolding sep_len_def by (rule sep_len_of_le)

lemma sep_len_append: "0 < sep_len a \<Longrightarrow> sep_len (a @ c) = sep_len a"
  unfolding sep_len_def by (rule sep_len_of_append) simp_all

lemma sep_len_straddle:
  "sep_len a = 0 \<Longrightarrow> 0 < sep_len (a @ c) \<Longrightarrow> sep_len (drop i (tl a)) = 0"
  unfolding sep_len_def by (rule sep_len_of_straddle) simp_all

lemma sep_len_Nil [simp]: "sep_len [] = 0"
  by (simp add: sep_len_def sep_len_of_def)

lemma rx_search_sep_None:
  "(\<And>i. sep_len (drop i s) = 0) \<Longrightarrow> rx_search event_sep_rx n pre s = None"
proof (induction s arbitrary: pre)
  case Nil
  then show ?case by (simp add: rx_search.simps [of _ _ _ "[]"] ms_event_sep)
next
  case (Cons x s)
  have "sep_len (x # s) = 0" using Cons.prems [of 0] by simp
  moreover have "rx_search event_sep_rx n (pre @ [x]) s = None"
    using Cons.prems [of "Suc _"] by (intro Cons.IH) simp
  ultimately show ?case by (simp add: rx_search.simps [of _ _ _ "x # s"] ms_event_sep)
qed

lemma rx_search_sep_append:
  "rx_search event_sep_rx n pre a = Some (p, r) \<Longrightarrow>
     rx_search event_sep_rx n' pre (a @ c) = Some (p, r @ c)"
proof (induction a arbitrary: pre)
  case Nil
  then show ?case by (simp add: rx_search.simps [of _ _ _ "[]"] ms_event_sep)
next
  case (Cons x a)
  show ?case
  proof (cases "0 < sep_len (x # a)")
    case True
    then have "p = pre" "r = drop (sep_len (x # a)) (x # a)"
      using Cons.prems by (simp_all add: rx_search.simps [of _ _ _ "x # a"] ms_event_sep)
    moreover have "sep_len ((x # a) @ c) = sep_len (x # a)"
      using True by (rule sep_len_append)
    moreover have "drop (sep_len (x # a)) (x # a @ c) = drop (sep_len (x # a)) (x # a) @ c"
      using sep_len_le [of "x # a"] drop_append [of "sep_len (x # a)" "x # a" c] by simp
    ultimately show ?thesis using True
      by (simp add: rx_search.simps [of _ _ _ "x # a @ c"] ms_event_sep del: drop_Suc_Cons)
  next
    case False
    then have z: "sep_len (x # a) = 0" by simp
    then have later: "rx_search event_sep_rx n (pre @ [x]) a = Some (p, r)"
      using Cons.prems by (simp add: rx_search.simps [of _ _ _ "x # a"] ms_event_sep)
    have "sep_len ((x # a) @ c) = 0"
    proof (rule ccontr)
      assume "sep_len ((x # a) @ c) \<noteq> 0"
      then have "sep_len (drop i a) = 0" for i
        using sep_len_straddle [OF z, of c i] by simp
      then have "rx_search event_sep_rx n (pre @ [x]) a = None"
        by (rule rx_search_sep_None)
      with later show False by simp
    qed
    then show ?thesis
      using Cons.IH [OF later]
      by (simp add: rx_search.simps [of _ _ _ "x # a @ c"] ms_event_sep)
  qed
qed

lemma rx_search_sep_shorter:
  "rx_search event_sep_rx n pre a = Some (p, r) \<Longrightarrow> length r < length a"
proof (induction a arbitrary: pre)
  case Nil
  then show ?case by (simp add: rx_search.simps [of _ _ _ "[]"] ms_event_sep)
next
  case (Cons x a)
  show ?case
  proof (cases "0 < sep_len (x # a)")
    case True
    then have "r = drop (sep_len (x # a)) (x # a)"
      using Cons.prems by (simp add: rx_search.simps [of _ _ _ "x # a"] ms_event_sep)
    then show ?thesis using True by simp
  next
    case False
    then have "rx_search event_sep_rx n (pre @ [x]) a = Some (p, r)"
      using Cons.prems by (simp add: rx_search.simps [of _ _ _ "x # a"] ms_event_sep)
    from Cons.IH [OF this] show ?thesis by simp
  qed
qed

lemma rx_split_nonempty: "rx_split r s \<noteq> []"
  by (subst rx_split.simps) (auto split: option.splits)

lemma rx_search_sep_length:
  "rx_search event_sep_rx n pre a = rx_search event_sep_rx n' pre a"
  by (induction a arbitrary: pre)
     (simp_all add: rx_search.simps [of _ _ _ "[]"] rx_search.simps [of _ _ _ "_ # _"] ms_event_sep)

lemma split_events_append:
  "rx_split event_sep_rx (a @ c) =
     butlast (rx_split event_sep_rx a) @ rx_split event_sep_rx (last (rx_split event_sep_rx a) @ c)"
proof (induction "length a" arbitrary: a rule: less_induct)
  case less
  show ?case
  proof (cases "rx_search event_sep_rx (length a) [] a")
    case None
    then have "rx_split event_sep_rx a = [a]" by (subst rx_split.simps) simp
    then show ?thesis by simp
  next
    case (Some pr)
    obtain p r where pr: "pr = (p, r)" by (cases pr)
    have lt: "length r < length a" using Some pr by (auto dest: rx_search_sep_shorter)
    have sa: "rx_split event_sep_rx a = p # rx_split event_sep_rx r"
      using Some pr lt by (subst rx_split.simps) simp
    have "rx_search event_sep_rx (length (a @ c)) [] (a @ c) = Some (p, r @ c)"
      using Some pr by (auto intro: rx_search_sep_append)
    then have "rx_split event_sep_rx (a @ c) = p # rx_split event_sep_rx (r @ c)"
      using lt by (subst rx_split.simps) simp
    also have "rx_split event_sep_rx (r @ c) =
        butlast (rx_split event_sep_rx r)
        @ rx_split event_sep_rx (last (rx_split event_sep_rx r) @ c)"
      by (rule less [OF lt])
    finally show ?thesis using sa rx_split_nonempty [of event_sep_rx r] by simp
  qed
qed

section \<open>One attempt and its chunks\<close>

lemma responseText_foldl:
  "responseText (foldl parse_step r ps) = responseText r @ formal_of_parts ps"
  by (induction ps arbitrary: r) (simp_all add: formal_of_parts_def parse_step_def)

lemma responseText_parseParts: "responseText (parseParts ps) = formal_of_parts ps"
  by (simp add: parseParts_def responseText_foldl)

lemma formal_of_parts_marked:
  "formal_of_parts (map (\<lambda>p. if text_truthy p then p\<lparr>thought := True\<rparr> else p) ps) = []"
  by (induction ps) (simp_all add: formal_of_parts_def text_truthy_def)

lemma formal_of_parts_unflagged:
  "formal_of_parts (filter (\<lambda>p. \<not> thought p) ps) = formal_of_parts ps"
  by (induction ps) (simp_all add: formal_of_parts_def)

lemma formal_of_parts_no_text:
  "\<not> list_ex text_truthy ps \<Longrightarrow> formal_of_parts ps = []"
  by (induction ps) (simp_all add: formal_of_parts_def)

lemma formal_of_rewrite_line:
  "formal_of (stored_data (rewrite_line fin line d)) = (if fin then formal_of d else [])"
proof (cases "ev_content d")
  case (Parts ps)
  have all: "length (filter (\<lambda>p. \<not> thought p) ps) < length ps
      \<or> filter (\<lambda>p. \<not> thought p) ps = ps"
    using length_filter_le [of "\<lambda>p. \<not> thought p" ps]
    by (metis filter_True le_neq_implies_less length_filter_less linorder_not_less)
  show ?thesis
  proof (cases fin)
    case True
    then show ?thesis using Parts
      by (simp add: rewrite_line_def Let_def formal_of_def ev_parts_def formal_of_parts_unflagged)
  next
    case False
    show ?thesis
    proof (cases "length (filter (\<lambda>p. \<not> thought p) ps) < length ps
        \<or> list_ex text_truthy (filter (\<lambda>p. \<not> thought p) ps)")
      case True
      then show ?thesis using Parts False
        by (simp add: rewrite_line_def Let_def formal_of_def ev_parts_def formal_of_parts_marked)
    next
      case no: False
      then have "filter (\<lambda>p. \<not> thought p) ps = ps" using all by blast
      then have "formal_of_parts ps = []" using no formal_of_parts_no_text [of ps] by simp
      then show ?thesis using Parts False no
        by (simp add: rewrite_line_def Let_def formal_of_def ev_parts_def)
    qed
  qed
qed (simp_all add: rewrite_line_def formal_of_def ev_parts_def formal_of_parts_def)

lemma not_started_Nil: "\<not> isFormalResponseStarted []"
  by (simp add: isFormalResponseStarted_iff BEGIN_TOKEN_def)

lemma plain_new_line:
  "plain \<lparr>rawLine = rewrite_line fin line d,
          isTransitionLine = (c \<and> isFormalResponseStarted (responseText (parseParts (ev_parts d)))),
          lo_text = responseText (parseParts (ev_parts d))\<rparr>"
  using formal_of_rewrite_line [of fin line d]
  by (auto simp: plain_def responseText_parseParts formal_of_def not_started_Nil
      split: if_splits)

lemma pushed_line_plain: "pushed_line parse fin line = Some lo \<Longrightarrow> plain lo"
proof -
  assume a: "pushed_line parse fin line = Some lo"
  then obtain d where
    "lo = \<lparr>rawLine =
             rewrite_line (fin \<or> isFormalResponseStarted (responseText (parseParts (ev_parts d))))
               line d,
           isTransitionLine =
             (\<not> fin \<and> isFormalResponseStarted (responseText (parseParts (ev_parts d)))),
           lo_text = responseText (parseParts (ev_parts d))\<rparr>"
    by (auto simp: pushed_line_def Let_def split: if_splits option.splits)
  then show ?thesis using plain_new_line [of _ line d "\<not> fin"] by simp
qed

lemma process_line_call_free:
  assumes "\<not> line_has_call parse line" and "\<not> hasFunctionCallInStream st"
  shows "case pushed_line parse (thoughtFinished st) line of
           None \<Rightarrow>
             process_line parse st line = st
             \<or> process_line parse st line =
                 st\<lparr>written := written st @ [Wire (line @ ''\<newline>\<newline>'')]\<rparr>
         | Some lo \<Rightarrow>
             process_line parse st line =
               st\<lparr>thoughtFinished := thoughtFinished st \<or> isTransitionLine lo,
                  accumulatedTextThisAttempt :=
                    accumulatedTextThisAttempt st
                    @ (if isTransitionLine lo then BEGIN_TOKEN @ ''\<newline>'' else []),
                  linesBuffer := linesBuffer st @ [lo],
                  textBuffer := textBuffer st @ lo_text lo\<rparr>"
proof (cases "\<not> prefix ''data:'' line \<or> trim (drop 5 line) = []")
  case True
  then have "pushed_line parse (thoughtFinished st) line = None"
    by (simp add: pushed_line_def)
  moreover have "process_line parse st line = st
      \<or> process_line parse st line = st\<lparr>written := written st @ [Wire (line @ ''\<newline>\<newline>'')]\<rparr>"
    using True by (auto simp: process_line_def Let_def)
  ultimately show ?thesis by auto
next
  case False
  then have data: "prefix ''data:'' line" "trim (drop 5 line) \<noteq> []" by auto
  show ?thesis
  proof (cases "parse (trim (drop 5 line))")
    case None
    then have "pushed_line parse (thoughtFinished st) line = None"
      using data by (simp add: pushed_line_def)
    moreover have
      "process_line parse st line = st\<lparr>written := written st @ [Wire (line @ ''\<newline>\<newline>'')]\<rparr>"
      using data None by (simp add: process_line_def Let_def)
    ultimately show ?thesis by auto
  next
    case (Some d)
    define pp where "pp = parseParts (ev_parts d)"
    have nc: "\<not> hasFunctionCall pp"
      using assms(1) data Some by (simp add: line_has_call_def pp_def)
    show ?thesis
    proof (cases "hasThought pp \<and> responseText pp = []")
      case True
      then have "pushed_line parse (thoughtFinished st) line = None"
        using data Some nc by (simp add: pushed_line_def Let_def pp_def)
      moreover have "process_line parse st line = st"
        using data Some nc True by (simp add: process_line_def Let_def pp_def)
      ultimately show ?thesis by auto
    next
      case False
      then have "pushed_line parse (thoughtFinished st) line =
          Some \<lparr>rawLine =
                  rewrite_line (thoughtFinished st \<or> isFormalResponseStarted (responseText pp))
                    line d,
                isTransitionLine =
                  (\<not> thoughtFinished st \<and> isFormalResponseStarted (responseText pp)),
                lo_text = responseText pp\<rparr>"
        using data Some nc by (simp add: pushed_line_def Let_def pp_def)
      moreover have "process_line parse st line =
          st\<lparr>thoughtFinished :=
               thoughtFinished st
               \<or> (\<not> thoughtFinished st \<and> isFormalResponseStarted (responseText pp)),
             accumulatedTextThisAttempt :=
               accumulatedTextThisAttempt st
               @ (if \<not> thoughtFinished st \<and> isFormalResponseStarted (responseText pp)
                  then BEGIN_TOKEN @ ''\<newline>'' else []),
             linesBuffer := linesBuffer st @
               [\<lparr>rawLine =
                   rewrite_line (thoughtFinished st \<or> isFormalResponseStarted (responseText pp))
                     line d,
                  isTransitionLine =
                    (\<not> thoughtFinished st \<and> isFormalResponseStarted (responseText pp)),
                  lo_text = responseText pp\<rparr>],
             textBuffer := textBuffer st @ responseText pp\<rparr>"
        using data Some nc False assms(2)
        by (cases "thoughtFinished st"; cases "isFormalResponseStarted (responseText pp)")
           (simp_all add: process_line_def Let_def pp_def)
      ultimately show ?thesis by simp
    qed
  qed
qed

lemma text_sum_split:
  "length (concat (map lo_text ls)) =
     text_sum k ls + length (concat (map lo_text (drop k ls)))"
proof -
  have "concat (map lo_text ls) =
      concat (map lo_text (take k ls)) @ concat (map lo_text (drop k ls))"
    by (metis append_take_drop_id concat_append map_append)
  then show ?thesis by (simp add: text_sum_def)
qed

lemma text_sum_le: "text_sum k ls \<le> length (concat (map lo_text ls))"
  using text_sum_split [of ls k] by simp

lemma text_sum_snoc: "k \<le> length ls \<Longrightarrow> text_sum k (ls @ [lo]) = text_sum k ls"
  by (simp add: text_sum_def)

lemma formal_text_append: "formal_text (a @ b) = formal_text a @ formal_text b"
  by (simp add: formal_text_def)

lemma tracks_process_line:
  assumes t: "tracks st st0 k" and nc: "\<not> line_has_call parse line"
  shows "tracks (process_line parse st line) (process_line parse st0 line) k"
proof -
  have fin: "thoughtFinished st = thoughtFinished st0"
    and flags: "\<not> hasFunctionCallInStream st" "\<not> hasFunctionCallInStream st0"
    and k: "k \<le> length (linesBuffer st0)"
    and T: "textBuffer st0 = concat (map lo_text (linesBuffer st0))"
    using t by (simp_all add: tracks_def)
  note a = process_line_call_free [OF nc flags(1)]
  note b = process_line_call_free [OF nc flags(2)]
  show ?thesis
  proof (cases "pushed_line parse (thoughtFinished st0) line")
    case None
    then have "process_line parse st line = st
        \<or> process_line parse st line = st\<lparr>written := written st @ [Wire (line @ ''\<newline>\<newline>'')]\<rparr>"
      and "process_line parse st0 line = st0
        \<or> process_line parse st0 line = st0\<lparr>written := written st0 @ [Wire (line @ ''\<newline>\<newline>'')]\<rparr>"
      using a b fin by simp_all
    then show ?thesis using t
      by (elim disjE) (auto simp: tracks_def formal_text_append, simp_all add: formal_text_def)
  next
    case (Some lo)
    have le: "text_sum k (linesBuffer st0) \<le> length (textBuffer st0)"
      unfolding T by (rule text_sum_le)
    have pl: "plain lo" using Some by (rule pushed_line_plain)
    have "process_line parse st line =
        st\<lparr>thoughtFinished := thoughtFinished st \<or> isTransitionLine lo,
           accumulatedTextThisAttempt :=
             accumulatedTextThisAttempt st
             @ (if isTransitionLine lo then BEGIN_TOKEN @ ''\<newline>'' else []),
           linesBuffer := linesBuffer st @ [lo],
           textBuffer := textBuffer st @ lo_text lo\<rparr>"
      and "process_line parse st0 line =
        st0\<lparr>thoughtFinished := thoughtFinished st0 \<or> isTransitionLine lo,
           accumulatedTextThisAttempt :=
             accumulatedTextThisAttempt st0
             @ (if isTransitionLine lo then BEGIN_TOKEN @ ''\<newline>'' else []),
           linesBuffer := linesBuffer st0 @ [lo],
           textBuffer := textBuffer st0 @ lo_text lo\<rparr>"
      using a b fin Some by simp_all
    then show ?thesis
      using t le pl k by (auto simp: tracks_def text_sum_snoc)
  qed
qed

lemma tracks_feed:
  assumes "tracks st st0 k" and "list_all (\<lambda>line. \<not> line_has_call parse line) lines"
  shows "tracks (foldl (process_line parse) st lines) (foldl (process_line parse) st0 lines) k"
  using assms
  by (induction lines arbitrary: st st0) (simp_all add: tracks_process_line)

lemma text_sum_add: "text_sum (k + m) ls = text_sum k ls + text_sum m (drop k ls)"
  by (simp add: text_sum_def take_add)

lemma text_sum_mono: "i \<le> j \<Longrightarrow> text_sum i ls \<le> text_sum j ls"
  using text_sum_add [of i "j - i" ls] by simp

lemma text_sum_Suc:
  "k < length ls \<Longrightarrow> text_sum (Suc k) ls = text_sum k ls + length (lo_text (ls ! k))"
  by (simp add: text_sum_def take_Suc_conv_app_nth)

lemma text_sum_0: "text_sum 0 ls = 0"
  by (simp add: text_sum_def)

lemma release_lines_shape:
  assumes "release_lines safe f ls = (rel, kept, n)"
  shows "\<exists>m. m \<le> length ls \<and> rel = take m ls \<and> kept = drop m ls
           \<and> n = f + text_sum m ls
           \<and> (f \<le> safe \<longrightarrow> n \<le> safe)
           \<and> (m < length ls \<longrightarrow> safe < n + length (lo_text (ls ! m)))"
  using assms
proof (induction ls arbitrary: f rel kept n)
  case Nil
  then show ?case by (simp add: text_sum_def)
next
  case (Cons lo ls)
  show ?case
  proof (cases "f + length (lo_text lo) \<le> safe")
    case False
    with Cons.prems have "rel = []" "kept = lo # ls" "n = f" by simp_all
    with False show ?thesis
      by (intro exI [of _ 0]) (simp add: text_sum_def)
  next
    case True
    obtain rel' kept' n' where r: "release_lines safe (f + length (lo_text lo)) ls = (rel', kept', n')"
      by (cases "release_lines safe (f + length (lo_text lo)) ls") auto
    with True Cons.prems have eq: "rel = lo # rel'" "kept = kept'" "n = n'" by simp_all
    from Cons.IH [OF r] obtain m where m: "m \<le> length ls" "rel' = take m ls" "kept' = drop m ls"
      "n' = f + length (lo_text lo) + text_sum m ls"
      "f + length (lo_text lo) \<le> safe \<longrightarrow> n' \<le> safe"
      "m < length ls \<longrightarrow> safe < n' + length (lo_text (ls ! m))"
      by blast
    show ?thesis
      using m eq True
      by (intro exI [of _ "Suc m"]) (simp add: text_sum_def)
  qed
qed

lemma tracksD:
  assumes "tracks st st0 k"
  shows "k \<le> length (linesBuffer st0)"
    and "linesBuffer st = drop k (linesBuffer st0)"
    and "textBuffer st = drop (text_sum k (linesBuffer st0)) (textBuffer st0)"
    and "thoughtFinished st = thoughtFinished st0"
    and "\<not> passthroughMode st" and "\<not> hasFunctionCallInStream st"
    and "\<not> passthroughMode st0" and "\<not> hasFunctionCallInStream st0"
    and "formal_text (written st) =
         concat (map (\<lambda>lo. wire_formal_text (forward_line lo)) (take k (linesBuffer st0)))"
    and "text_sum k (linesBuffer st0) = 0
        \<or> text_sum k (linesBuffer st0) + LOOKAHEAD_SIZE \<le> length (textBuffer st0)"
    and "textBuffer st0 = concat (map lo_text (linesBuffer st0))"
    and "list_all plain (linesBuffer st0)"
  using assms unfolding tracks_def by blast+

lemma tracks_lookahead_release:
  assumes t: "tracks st st0 k"
  shows "\<exists>k'. tracks (lookahead_release st) st0 k' \<and> released_most st0 k'"
proof -
  define L where "L = linesBuffer st0"
  define T where "T = textBuffer st0"
  define s where "s = text_sum k L"
  have k: "k \<le> length L" and lb: "linesBuffer st = drop k L" and tb: "textBuffer st = drop s T"
    and safe: "s = 0 \<or> s + LOOKAHEAD_SIZE \<le> length T"
    and TL: "T = concat (map lo_text L)"
    and fw: "formal_text (written st) =
         concat (map (\<lambda>lo. wire_formal_text (forward_line lo)) (take k L))"
    using tracksD [OF t] unfolding L_def T_def s_def by blast+
  have sT: "s \<le> length T" unfolding s_def TL by (rule text_sum_le)
  show ?thesis
  proof (cases "LOOKAHEAD_SIZE < length (textBuffer st)")
    case False
    then have same: "lookahead_release st = st" by (simp add: lookahead_release_def)
    have "released_most st0 k"
      unfolding released_most_def using False tb sT
      by (auto simp: L_def [symmetric] T_def [symmetric] s_def [symmetric])
    with t same show ?thesis by auto
  next
    case True
    define sf where "sf = length (textBuffer st) - LOOKAHEAD_SIZE"
    have sf: "s + sf + LOOKAHEAD_SIZE = length T" using True tb sT by (simp add: sf_def)
    obtain rel kept n where r: "release_lines sf 0 (linesBuffer st) = (rel, kept, n)"
      by (cases "release_lines sf 0 (linesBuffer st)") auto
    from release_lines_shape [OF r] obtain m where m: "m \<le> length (drop k L)"
      "rel = take m (drop k L)" "kept = drop m (drop k L)" "n = text_sum m (drop k L)"
      "n \<le> sf" "m < length (drop k L) \<longrightarrow> sf < n + length (lo_text (drop k L ! m))"
      unfolding lb by auto
    have st': "lookahead_release st =
        st\<lparr>linesBuffer := kept, written := written st @ map forward_line rel,
           accumulatedTextThisAttempt :=
             accumulatedTextThisAttempt st @ concat (map forwarded_text rel),
           textBuffer := drop n (textBuffer st)\<rparr>"
      using True r by (simp add: lookahead_release_def sf_def)
    have km: "k + m \<le> length L" using m(1) k by simp
    have sum: "text_sum (k + m) L = s + n" by (simp add: text_sum_add s_def m(4))
    have tk: "take (k + m) L = take k L @ take m (drop k L)" by (simp add: take_add)
    have tr: "tracks (lookahead_release st) st0 (k + m)"
      using t km sum sf m(5) unfolding st'
      by (simp add: tracks_def L_def [symmetric] T_def [symmetric] tb m(2,3) formal_text_append fw tk
            add.commute)
         (simp add: formal_text_def comp_def)
    have "released_most st0 (k + m)"
      unfolding released_most_def L_def [symmetric] T_def [symmetric] sum
    proof (intro allI impI, elim conjE)
      fix j assume j: "j \<le> length L" "text_sum j L + LOOKAHEAD_SIZE \<le> length T"
      show "text_sum j L \<le> s + n"
      proof (cases "j \<le> k + m")
        case True
        then show ?thesis using text_sum_mono [of j "k + m" L] sum by simp
      next
        case False
        then have lt: "k + m < length L" and "Suc (k + m) \<le> j" using j by simp_all
        then have "text_sum (Suc (k + m)) L \<le> text_sum j L" by (intro text_sum_mono)
        moreover have "text_sum (Suc (k + m)) L = s + n + length (lo_text (L ! (k + m)))"
          using lt sum by (simp add: text_sum_Suc)
        moreover have "sf < n + length (lo_text (L ! (k + m)))"
          using m(6) lt k by simp
        ultimately show ?thesis using j(2) sf by simp
      qed
    qed
    with tr show ?thesis by blast
  qed
qed

lemma rx_split_sep_Nil: "rx_split event_sep_rx [] = [[]]"
  by (subst rx_split.simps) (simp add: rx_search.simps [of _ _ _ "[]"] ms_event_sep)

lemma butlast_split_events_append:
  "butlast (rx_split event_sep_rx (a @ c)) =
     butlast (rx_split event_sep_rx a)
     @ butlast (rx_split event_sep_rx (last (rx_split event_sep_rx a) @ c))"
  by (simp add: split_events_append [of a c] butlast_append rx_split_nonempty)

lemma last_split_events_append:
  "last (rx_split event_sep_rx (a @ c)) =
     last (rx_split event_sep_rx (last (rx_split event_sep_rx a) @ c))"
  by (simp add: split_events_append [of a c] rx_split_nonempty)

lemma no_function_call_append:
  assumes "no_function_call parse (a @ c)"
  shows "no_function_call parse a"
    and "no_function_call parse (last (rx_split event_sep_rx a) @ c)"
  using assms by (simp_all add: no_function_call_def butlast_split_events_append [of a c])

lemma tracks_lineBuffer: "tracks (st\<lparr>lineBuffer := x\<rparr>) st0 k = tracks st st0 k"
  by (simp add: tracks_def)

lemma lineBuffer_process_line:
  assumes "\<not> line_has_call parse line" and "\<not> hasFunctionCallInStream st"
  shows "lineBuffer (process_line parse st line) = lineBuffer st"
  using process_line_call_free [OF assms]
  by (cases "pushed_line parse (thoughtFinished st) line") auto

lemma lineBuffer_feed:
  assumes "tracks st st0 k" and "list_all (\<lambda>line. \<not> line_has_call parse line) lines"
  shows "lineBuffer (foldl (process_line parse) st lines) = lineBuffer st"
  using assms
proof (induction lines arbitrary: st st0)
  case Nil
  then show ?case by simp
next
  case (Cons line lines)
  have "tracks (process_line parse st line) (process_line parse st0 line) k"
    using Cons.prems by (simp add: tracks_process_line)
  from Cons.IH [OF this] Cons.prems show ?case
    by (simp add: lineBuffer_process_line tracksD(6))
qed

lemma lineBuffer_lookahead_release: "lineBuffer (lookahead_release st) = lineBuffer st"
  by (simp add: lookahead_release_def split: prod.splits)

lemma tracks_start: "tracks (attempt_start f seed) (attempt_start f seed) 0"
  by (simp add: tracks_def attempt_start_def text_sum_def formal_text_def)

lemma read_chunks_snoc:
  "read_chunks parse f seed (cs @ [c]) = chunk_step parse (read_chunks parse f seed cs) c"
  by (simp add: read_chunks_def)

lemma read_chunks_tracks:
  assumes "no_function_call parse (concat cs)"
  shows "\<exists>k. tracks (read_chunks parse f seed cs) (fed parse f seed (concat cs)) k
           \<and> released_most (fed parse f seed (concat cs)) k
           \<and> lineBuffer (read_chunks parse f seed cs) = last (rx_split event_sep_rx (concat cs))"
  using assms
proof (induction cs rule: rev_induct)
  case Nil
  have "read_chunks parse f seed [] = attempt_start f seed"
    and "fed parse f seed (concat []) = attempt_start f seed"
    and "lineBuffer (attempt_start f seed) = last (rx_split event_sep_rx (concat []))"
    by (simp_all add: read_chunks_def fed_def rx_split_sep_Nil attempt_start_def)
  moreover have "released_most (attempt_start f seed) 0"
    by (simp add: released_most_def attempt_start_def LOOKAHEAD_SIZE_def text_sum_def)
  ultimately show ?case
    using tracks_start [of f seed] by (intro exI [of _ 0]) simp
next
  case (snoc c cs)
  define a where "a = concat cs"
  define st where "st = read_chunks parse f seed cs"
  define lines where "lines = rx_split event_sep_rx (last (rx_split event_sep_rx a) @ c)"
  have nc: "no_function_call parse a" "no_function_call parse (last (rx_split event_sep_rx a) @ c)"
    using snoc.prems no_function_call_append [of parse a c] by (simp_all add: a_def)
  from snoc.IH [OF nc(1) [unfolded a_def]] obtain k where
    k: "tracks st (fed parse f seed a) k" and lb: "lineBuffer st = last (rx_split event_sep_rx a)"
    unfolding st_def a_def by blast
  define st1 where "st1 = foldl (process_line parse) (st\<lparr>lineBuffer := last lines\<rparr>) (butlast lines)"
  have calls: "list_all (\<lambda>line. \<not> line_has_call parse line) (butlast lines)"
    using nc(2) by (simp add: no_function_call_def lines_def)
  have fed: "foldl (process_line parse) (fed parse f seed a) (butlast lines) = fed parse f seed (a @ c)"
    by (simp add: fed_def butlast_split_events_append [of a c] lines_def)
  have k1: "tracks (st\<lparr>lineBuffer := last lines\<rparr>) (fed parse f seed a) k"
    using k by (simp add: tracks_lineBuffer)
  have t1: "tracks st1 (fed parse f seed (a @ c)) k"
    using tracks_feed [OF k1 calls] by (simp add: st1_def fed)
  have l1: "lineBuffer st1 = last lines"
    using lineBuffer_feed [OF k1 calls] by (simp add: st1_def)
  have step: "chunk_step parse st c = lookahead_release st1"
    using tracksD(5) [OF k] by (simp add: chunk_step_def lb lines_def st1_def Let_def)
  from tracks_lookahead_release [OF t1] obtain k' where
    k': "tracks (lookahead_release st1) (fed parse f seed (a @ c)) k'"
        "released_most (fed parse f seed (a @ c)) k'"
    by blast
  have "lineBuffer (lookahead_release st1) = last (rx_split event_sep_rx (a @ c))"
    by (simp add: lineBuffer_lookahead_release l1 last_split_events_append [of a c] lines_def)
  with k' show ?case
    by (auto simp: read_chunks_snoc st_def [symmetric] step a_def [symmetric])
qed

lemma drop_text_sum:
  "drop (text_sum k ls) (concat (map lo_text ls)) = concat (map lo_text (drop k ls))"
proof -
  have "concat (map lo_text ls) =
      concat (map lo_text (take k ls)) @ concat (map lo_text (drop k ls))"
    by (metis append_take_drop_id concat_append map_append)
  then show ?thesis by (simp add: text_sum_def)
qed

lemma wire_formal_write_line: "wire_formal_text (write_line l) = formal_of (stored_data l)"
  by (cases l) simp_all

lemma formal_of_parts_append:
  "formal_of_parts (ps @ qs) = formal_of_parts ps @ formal_of_parts qs"
  by (simp add: formal_of_parts_def)

lemma response_text_lines:
  "concat (map the_text (filter (\<lambda>p. \<not> thought p \<and> text_truthy p)
      (concat (map (\<lambda>lo. ev_parts (stored_data (rawLine lo))) ls)))) =
   concat (map (\<lambda>lo. formal_of (stored_data (rawLine lo))) ls)"
  by (induction ls) (simp_all add: formal_of_def formal_of_parts_def conj_commute)

lemma formal_of_final_parts:
  "formal_of_parts ((if c then [thought_part t] else [])
                     @ (if r \<noteq> [] then [text_part r] else [])) = r"
  by (simp add: formal_of_parts_def thought_part_def text_part_def text_truthy_def the_text_def)

lemma final_formal_eq:
  "final_formal ls =
     (if ls \<noteq> [] \<and> ev_content (stored_data (rawLine (last ls))) = No_content then None
      else Some (cleanFinalText
                   (concat (map (\<lambda>lo. formal_of (stored_data (rawLine lo))) ls)) True True))"
proof -
  have upd: "formal_of (d\<lparr>ev_content := Parts ps, finishReason := fr\<rparr>) = formal_of_parts ps"
    for d :: event_data and ps fr
    by (simp add: formal_of_def ev_parts_def)
  show ?thesis
  proof (cases "ls = []")
    case True
    then show ?thesis
      by (simp add: final_formal_def final_payload_def formal_of_def ev_parts_def Let_def
            formal_of_parts_def text_part_def text_truthy_def the_text_def)
  next
    case False
    show ?thesis
    proof (cases "ev_content (stored_data (rawLine (last ls))) = No_content")
      case True
      with False show ?thesis
        unfolding final_formal_def final_payload_def Let_def by simp
    next
      case nc: False
      with False show ?thesis
        unfolding final_formal_def final_payload_def Let_def response_text_lines
        by (simp add: upd formal_of_final_parts split del: if_split)
    qed
  qed
qed

lemma silent_lines:
  assumes "list_all plain ls" and "text_sum (length ls) ls = 0"
  shows "concat (map (\<lambda>lo. wire_formal_text (forward_line lo)) ls) = []"
    and "concat (map (\<lambda>lo. formal_of (stored_data (rawLine lo))) ls) = []"
  using assms
  by (induction ls)
     (auto simp: text_sum_def plain_def forward_line_def wire_formal_write_line)

lemma agree_sym: "agree st1 st2 \<Longrightarrow> agree st2 st1"
  by (auto simp: agree_def)

lemma tracks_text_sum_le:
  assumes "tracks st1 st0 k1" and "released_most st0 k2" 
  shows "text_sum k1 (linesBuffer st0) \<le> text_sum k2 (linesBuffer st0)"
  using tracksD(1,10) [OF assms(1)] assms(2) unfolding released_most_def by auto

lemma tracks_agree_le:
  assumes t1: "tracks st1 st0 k1" and m1: "released_most st0 k1"
    and t2: "tracks st2 st0 k2" and m2: "released_most st0 k2"
    and le: "k1 \<le> k2"
  shows "agree st1 st2"
proof -
  define L where "L = linesBuffer st0"
  define T where "T = textBuffer st0"
  define mid where "mid = take (k2 - k1) (drop k1 L)"
  define R where "R = drop k2 L"
  define g where "g = (\<lambda>lo :: line_obj. wire_formal_text (forward_line lo))"
  define h where "h = (\<lambda>lo :: line_obj. formal_of (stored_data (rawLine lo)))"
  note a = tracksD [OF t1, folded L_def T_def g_def]
  note b = tracksD [OF t2, folded L_def T_def g_def]
  have sum: "text_sum k1 L = text_sum k2 L"
    using tracks_text_sum_le [OF t1 m2] tracks_text_sum_le [OF t2 m1] by (simp add: L_def)
  have k2: "k2 = k1 + (k2 - k1)" using le by simp
  have tk: "take k2 L = take k1 L @ mid"
    by (subst k2, subst take_add) (simp add: mid_def)
  have dk: "drop k1 L = mid @ R"
  proof -
    have "drop k1 L = take (k2 - k1) (drop k1 L) @ drop (k2 - k1) (drop k1 L)"
      by (simp only: append_take_drop_id)
    moreover have "drop (k2 - k1) (drop k1 L) = R" using le by (simp add: R_def)
    ultimately show ?thesis by (simp only: mid_def)
  qed
  have "text_sum k2 L = text_sum k1 L + text_sum (k2 - k1) (drop k1 L)"
    by (subst k2, subst text_sum_add) simp
  moreover have "text_sum (k2 - k1) (drop k1 L) = length (concat (map lo_text mid))"
    by (simp add: text_sum_def mid_def)
  moreover have "text_sum (length mid) mid = length (concat (map lo_text mid))"
    by (simp add: text_sum_def)
  ultimately have z: "text_sum (length mid) mid = 0"
    using sum by simp
  have "set mid \<subseteq> set L"
    unfolding mid_def by (meson in_set_dropD in_set_takeD subsetI)
  then have pm: "list_all plain mid" using a(12) by (auto simp: list_all_iff)
  have sil: "concat (map g mid) = []" "concat (map h mid) = []"
    using silent_lines [OF pm z] by (simp_all add: g_def h_def)
  have w: "formal_text (written st1) = formal_text (written st2)"
    using a(9) b(9) sil(1) by (simp add: tk)
  have tb: "textBuffer st1 = textBuffer st2" using a(3) b(3) sum by simp
  have fin: "final_formal (linesBuffer st1) = final_formal (linesBuffer st2)"
    if ne: "textBuffer st1 \<noteq> []"
  proof -
    have "textBuffer st2 = concat (map lo_text R)"
      using b(3) b(11) by (simp add: drop_text_sum R_def)
    with ne tb have R: "R \<noteq> []" by auto
    have l1: "linesBuffer st1 = mid @ R" and l2: "linesBuffer st2 = R"
      using a(2) b(2) dk by (simp_all add: R_def)
    have eq: "concat (map h (mid @ R)) = concat (map h R)" using sil(2) by simp
    show ?thesis
      unfolding l1 l2 final_formal_eq using R eq [unfolded h_def]
      by (simp del: map_append concat_append)
  qed
  show ?thesis
    unfolding agree_def using w tb fin a(4,5) b(4,5) by simp
qed

lemma tracks_agree:
  assumes "tracks st1 st0 k1" and "released_most st0 k1"
    and "tracks st2 st0 k2" and "released_most st0 k2"
  shows "agree st1 st2"
proof (cases "k1 \<le> k2")
  case True
  with assms show ?thesis by (rule tracks_agree_le)
next
  case False
  then have "k2 \<le> k1" by simp
  with assms(3,4,1,2) have "agree st2 st1" by (rule tracks_agree_le)
  then show ?thesis by (rule agree_sym)
qed

lemma read_chunks_agree:
  assumes "no_function_call parse (concat cs)"
  shows "agree (read_chunks parse f seed cs) (read_chunks parse f seed [concat cs])"
proof -
  have "no_function_call parse (concat [concat cs])" using assms by simp
  from read_chunks_tracks [OF this, of f seed] read_chunks_tracks [OF assms, of f seed]
  show ?thesis by (auto intro: tracks_agree)
qed

lemma not_complete_Nil: "\<not> isResponseComplete []"
  by code_simp

lemma final_formal_cases:
  assumes "final_formal ls1 = final_formal ls2"
  shows "(final_payload ls1 = None \<and> final_payload ls2 = None)
       \<or> (\<exists>d1 d2. final_payload ls1 = Some d1 \<and> final_payload ls2 = Some d2
              \<and> formal_of d1 = formal_of d2)"
  using assms unfolding final_formal_def
  by (cases "final_payload ls1"; cases "final_payload ls2") simp_all

lemma formal_text_snoc_error:
  "formal_text (out @ [Wire_error code message details]) = formal_text out"
  by (simp add: formal_text_def)

lemma formal_text_snoc_data:
  "formal_text (out @ [Wire_data d]) = formal_text out @ formal_of d"
  by (simp add: formal_text_def)

lemma stream_loop_unfold:
  assumes le: "a \<le> maxRetries cfg"
    and seed: "(if ib \<and> a + 1 = 1 then startOfThought cfg else []) = seed"
    and o: "out @ (if seed \<noteq> [] then [Wire_data (seed_event seed)] else []) = out'"
  shows "stream_loop cfg ib parse fetch a b f out =
     (case fetch (a + 1) b of
        Stream_ok chunks ending \<Rightarrow>
          (case ending of
             Breaks message \<Rightarrow>
               if a + 1 > maxRetries cfg then
                 ((out' @ written (read_chunks parse f seed chunks))
                    @ [Wire_error 500 ''Internal Server Error after max retries.'' message], a + 1)
               else stream_loop cfg ib parse fetch (a + 1) b
                      (thoughtFinished (read_chunks parse f seed chunks))
                      (out' @ written (read_chunks parse f seed chunks))
           | Ends \<Rightarrow>
               if passthroughMode (read_chunks parse f seed chunks)
               then (out' @ written (read_chunks parse f seed chunks), a + 1)
               else if thoughtFinished (read_chunks parse f seed chunks)
                       \<and> isResponseComplete (textBuffer (read_chunks parse f seed chunks)) then
                 (case final_payload (linesBuffer (read_chunks parse f seed chunks)) of
                    Some finalPayload \<Rightarrow>
                      ((out' @ written (read_chunks parse f seed chunks))
                         @ [Wire_data finalPayload], a + 1)
                  | None \<Rightarrow>
                      if a + 1 > maxRetries cfg
                      then ((out' @ written (read_chunks parse f seed chunks))
                              @ [Wire_error 500 ''Internal Server Error after max retries.''
                                   ''TypeError''], a + 1)
                      else stream_loop cfg ib parse fetch (a + 1) b
                             (thoughtFinished (read_chunks parse f seed chunks))
                             (out' @ written (read_chunks parse f seed chunks)))
               else stream_loop cfg ib parse fetch (a + 1)
                      (buildRetryRequest b
                         (accumulatedTextThisAttempt (read_chunks parse f seed chunks)))
                      (thoughtFinished (read_chunks parse f seed chunks))
                      (out' @ written (read_chunks parse f seed chunks)))
      | Stream_http_error status errorData \<Rightarrow>
          if status \<in> set FATAL_STATUS_CODES
          then (out' @ [Wire_error status ''Upstream API returned a fatal error.'' errorData],
                a + 1)
          else if a + 1 > maxRetries cfg
          then (out' @ [Wire_error status ''Upstream API error after max retries.'' errorData],
                a + 1)
          else stream_loop cfg ib parse fetch (a + 1) b f out'
      | Stream_fetch_failed message \<Rightarrow>
          if a + 1 > maxRetries cfg
          then (out' @ [Wire_error 500 ''Internal Server Error after max retries.'' message],
                a + 1)
          else stream_loop cfg ib parse fetch (a + 1) b f out')"
  by (subst stream_loop.simps) (simp only: Let_def le seed o if_True)

lemma chunking_loop:
  assumes cf: "\<And>k. call_free parse (up k)" and out: "formal_text out1 = formal_text out2"
  shows "formal_text (fst (stream_loop cfg ib parse (\<lambda>k b. up k) a b1 f out1)) =
         formal_text (fst (stream_loop cfg ib parse (\<lambda>k b. fuse (up k)) a b2 f out2))
       \<and> snd (stream_loop cfg ib parse (\<lambda>k b. up k) a b1 f out1) =
         snd (stream_loop cfg ib parse (\<lambda>k b. fuse (up k)) a b2 f out2)"
  using out
proof (induction "nat (maxRetries cfg + 1 - a)" arbitrary: a b1 b2 f out1 out2 rule: less_induct)
  case less
  define F1 where "F1 = (\<lambda>(k :: int) (b :: body). up k)"
  define F2 where "F2 = (\<lambda>(k :: int) (b :: body). fuse (up k))"
  have goal: "formal_text (fst (stream_loop cfg ib parse F1 a b1 f out1)) =
         formal_text (fst (stream_loop cfg ib parse F2 a b2 f out2))
       \<and> snd (stream_loop cfg ib parse F1 a b1 f out1) =
         snd (stream_loop cfg ib parse F2 a b2 f out2)"
  proof (cases "a \<le> maxRetries cfg")
    case False
    then have "stream_loop cfg ib parse F1 a b1 f out1 =
        (out1 @ [Wire_error 500 ''Internal worker error.'' ''linesBuffer is not defined''], a)"
      and "stream_loop cfg ib parse F2 a b2 f out2 =
        (out2 @ [Wire_error 500 ''Internal worker error.'' ''linesBuffer is not defined''], a)"
      by (simp_all add: stream_loop.simps [of _ _ _ _ a])
    then show ?thesis
      using less.prems by (simp add: formal_text_snoc_error)
  next
    case True
    define seed where "seed = (if ib \<and> a + 1 = 1 then startOfThought cfg else [])"
    define o1 where "o1 = out1 @ (if seed \<noteq> [] then [Wire_data (seed_event seed)] else [])"
    define o2 where "o2 = out2 @ (if seed \<noteq> [] then [Wire_data (seed_event seed)] else [])"
    have o: "formal_text o1 = formal_text o2"
      using less.prems by (simp add: o1_def o2_def formal_text_append)
    have IH: "formal_text (fst (stream_loop cfg ib parse F1 (a + 1) b1' f' o1')) =
         formal_text (fst (stream_loop cfg ib parse F2 (a + 1) b2' f' o2'))
       \<and> snd (stream_loop cfg ib parse F1 (a + 1) b1' f' o1') =
         snd (stream_loop cfg ib parse F2 (a + 1) b2' f' o2')"
      if "formal_text o1' = formal_text o2'" for b1' b2' f' o1' o2'
      unfolding F1_def F2_def
      using True that by (intro less.hyps) simp_all
    note U1 = stream_loop_unfold [OF True seed_def [symmetric] o1_def [symmetric],
        of parse F1 b1 f]
    note U2 = stream_loop_unfold [OF True seed_def [symmetric] o2_def [symmetric],
        of parse F2 b2 f]
    have F: "F1 (a + 1) b1 = up (a + 1)" "F2 (a + 1) b2 = fuse (up (a + 1))"
      by (simp_all add: F1_def F2_def)
    show ?thesis
    proof (cases "up (a + 1)")
      case (Stream_fetch_failed message)
      then show ?thesis
        unfolding U1 U2 F using o IH [OF o] by (simp add: formal_text_snoc_error)
    next
      case (Stream_http_error status errorData)
      then show ?thesis
        unfolding U1 U2 F using o IH [OF o] by (simp add: formal_text_snoc_error)
    next
      case (Stream_ok chunks ending)
      define st1 where "st1 = read_chunks parse f seed chunks"
      define st2 where "st2 = read_chunks parse f seed [concat chunks]"
      define w1 where "w1 = o1 @ written st1"
      define w2 where "w2 = o2 @ written st2"
      have "no_function_call parse (concat chunks)"
        using cf [of "a + 1"] Stream_ok by simp
      then have ag: "agree st1 st2"
        unfolding st1_def st2_def by (rule read_chunks_agree)
      then have w: "formal_text w1 = formal_text w2"
        and tf: "thoughtFinished st1 = thoughtFinished st2"
        and tb: "textBuffer st1 = textBuffer st2"
        and pm: "\<not> passthroughMode st1" "\<not> passthroughMode st2"
        using o by (simp_all add: agree_def w1_def w2_def formal_text_append)
      have V1: "stream_loop cfg ib parse F1 a b1 f out1 =
          (case ending of
             Breaks message \<Rightarrow>
               if a + 1 > maxRetries cfg then
                 (w1 @ [Wire_error 500 ''Internal Server Error after max retries.'' message], a + 1)
               else stream_loop cfg ib parse F1 (a + 1) b1 (thoughtFinished st1) w1
           | Ends \<Rightarrow>
               if thoughtFinished st1 \<and> isResponseComplete (textBuffer st1) then
                 (case final_payload (linesBuffer st1) of
                    Some finalPayload \<Rightarrow> (w1 @ [Wire_data finalPayload], a + 1)
                  | None \<Rightarrow>
                      if a + 1 > maxRetries cfg
                      then (w1 @ [Wire_error 500 ''Internal Server Error after max retries.''
                                   ''TypeError''], a + 1)
                      else stream_loop cfg ib parse F1 (a + 1) b1 (thoughtFinished st1) w1)
               else stream_loop cfg ib parse F1 (a + 1)
                      (buildRetryRequest b1 (accumulatedTextThisAttempt st1))
                      (thoughtFinished st1) w1)"
        unfolding U1 F Stream_ok upstream_stream.case st1_def [symmetric] w1_def [symmetric]
        using pm(1) by (simp only: if_False)
      have V2: "stream_loop cfg ib parse F2 a b2 f out2 =
          (case ending of
             Breaks message \<Rightarrow>
               if a + 1 > maxRetries cfg then
                 (w2 @ [Wire_error 500 ''Internal Server Error after max retries.'' message], a + 1)
               else stream_loop cfg ib parse F2 (a + 1) b2 (thoughtFinished st2) w2
           | Ends \<Rightarrow>
               if thoughtFinished st2 \<and> isResponseComplete (textBuffer st2) then
                 (case final_payload (linesBuffer st2) of
                    Some finalPayload \<Rightarrow> (w2 @ [Wire_data finalPayload], a + 1)
                  | None \<Rightarrow>
                      if a + 1 > maxRetries cfg
                      then (w2 @ [Wire_error 500 ''Internal Server Error after max retries.''
                                   ''TypeError''], a + 1)
                      else stream_loop cfg ib parse F2 (a + 1) b2 (thoughtFinished st2) w2)
               else stream_loop cfg ib parse F2 (a + 1)
                      (buildRetryRequest b2 (accumulatedTextThisAttempt st2))
                      (thoughtFinished st2) w2)"
        unfolding U2 F Stream_ok fuse.simps upstream_stream.case st2_def [symmetric]
          w2_def [symmetric]
        using pm(2) by (simp only: if_False)
      show ?thesis
      proof (cases ending)
        case (Breaks message)
        then show ?thesis
          unfolding V1 V2 using w tf IH [OF w] by (simp add: formal_text_snoc_error)
      next
        case Ends
        show ?thesis
        proof (cases "thoughtFinished st1 \<and> isResponseComplete (textBuffer st1)")
          case False
          then have n2: "\<not> (thoughtFinished st2 \<and> isResponseComplete (textBuffer st2))"
            unfolding tf tb .
          have "stream_loop cfg ib parse F1 a b1 f out1 =
              stream_loop cfg ib parse F1 (a + 1)
                (buildRetryRequest b1 (accumulatedTextThisAttempt st1)) (thoughtFinished st1) w1"
            unfolding V1 Ends stream_end.case using False by (simp only: if_False)
          moreover have "stream_loop cfg ib parse F2 a b2 f out2 =
              stream_loop cfg ib parse F2 (a + 1)
                (buildRetryRequest b2 (accumulatedTextThisAttempt st2)) (thoughtFinished st2) w2"
            unfolding V2 Ends stream_end.case using n2 by (simp only: if_False)
          ultimately show ?thesis using tf IH [OF w] by simp
        next
          case cmp: True
          then have cmp2: "thoughtFinished st2 \<and> isResponseComplete (textBuffer st2)"
            unfolding tf tb .
          from cmp have "textBuffer st1 \<noteq> []" using not_complete_Nil by auto
          with ag have "final_formal (linesBuffer st1) = final_formal (linesBuffer st2)"
            by (simp add: agree_def)
          from final_formal_cases [OF this] show ?thesis
          proof (elim disjE conjE exE)
            assume n: "final_payload (linesBuffer st1) = None"
              "final_payload (linesBuffer st2) = None"
            have "stream_loop cfg ib parse F1 a b1 f out1 =
                (if a + 1 > maxRetries cfg
                 then (w1 @ [Wire_error 500 ''Internal Server Error after max retries.''
                               ''TypeError''], a + 1)
                 else stream_loop cfg ib parse F1 (a + 1) b1 (thoughtFinished st1) w1)"
              unfolding V1 Ends stream_end.case n(1) option.case using cmp
              by simp
            moreover have "stream_loop cfg ib parse F2 a b2 f out2 =
                (if a + 1 > maxRetries cfg
                 then (w2 @ [Wire_error 500 ''Internal Server Error after max retries.''
                               ''TypeError''], a + 1)
                 else stream_loop cfg ib parse F2 (a + 1) b2 (thoughtFinished st2) w2)"
              unfolding V2 Ends stream_end.case n(2) option.case using cmp2
              by simp
            ultimately show ?thesis
              using w tf IH [OF w] by (simp add: formal_text_snoc_error)
          next
            fix d1 d2
            assume s: "final_payload (linesBuffer st1) = Some d1"
              "final_payload (linesBuffer st2) = Some d2" "formal_of d1 = formal_of d2"
            have "stream_loop cfg ib parse F1 a b1 f out1 = (w1 @ [Wire_data d1], a + 1)"
              unfolding V1 Ends stream_end.case s(1) option.case using cmp
              by simp
            moreover have "stream_loop cfg ib parse F2 a b2 f out2 = (w2 @ [Wire_data d2], a + 1)"
              unfolding V2 Ends stream_end.case s(2) option.case using cmp2
              by simp
            ultimately show ?thesis
              using w s(3) by (simp add: formal_text_snoc_data)
          qed
        qed
      qed
    qed
  qed
  then show ?case by (simp only: F1_def F2_def)
qed

section \<open>Chunk boundaries of the upstream stream\<close>

text \<open>
  C3. The formal text the streaming engine sends to the caller does not depend on how the
  bytes of the upstream responses are cut into chunks. \<open>up k\<close> is what the \<open>k\<close>-th upstream
  call gives: a failure, or a byte stream delivered as a sequence of chunks of any number
  and any sizes; \<open>fuse (up k)\<close> delivers the same bytes in a single chunk. For an upstream
  none of whose events carries a function call (in particular one that returns a text
  ending in the finished token), the run of \<^verbatim>\<open>process\<close> on the chunked delivery and the run
  on the single-chunk delivery write the same formal text and make the same number of
  upstream calls.
\<close>

theorem chunk_splitting_invariance:
  assumes "\<And>k. call_free parse (up k)"
  shows "formal_text (fst (stream_loop cfg injectBeginTokenPrompt parse (\<lambda>k b. up k) 0
                             requestBody finished [])) =
         formal_text (fst (stream_loop cfg injectBeginTokenPrompt parse (\<lambda>k b. fuse (up k)) 0
                             requestBody finished []))
       \<and> snd (stream_loop cfg injectBeginTokenPrompt parse (\<lambda>k b. up k) 0
                 requestBody finished []) =
         snd (stream_loop cfg injectBeginTokenPrompt parse (\<lambda>k b. fuse (up k)) 0
                 requestBody finished [])"
  using assms by (intro chunking_loop) simp_all

theorem chunk_splitting_invariance_witness:
  "(\<forall>k. call_free sample_parse (sample_stream k))
   \<and> formal_text (fst (stream_loop sample_config True sample_parse (\<lambda>k b. sample_stream k) 0
                         sample_user_body False []))
       = ''Hello, this is the complete answer to it.''
   \<and> formal_text (fst (stream_loop sample_config True sample_parse
                         (\<lambda>k b. fuse (sample_stream k)) 0 sample_user_body False []))
       = ''Hello, this is the complete answer to it.''
   \<and> snd (stream_loop sample_config True sample_parse (\<lambda>k b. fuse (sample_stream k)) 0
             sample_user_body False []) = 1"
proof -
  have h: "call_free sample_parse (sample_stream k)" for k
    unfolding sample_stream_def by code_simp
  have v: "formal_text (fst (stream_loop sample_config True sample_parse
                               (\<lambda>k b. Stream_ok sample_chunks Ends) 0 sample_user_body False []))
             = ''Hello, this is the complete answer to it.''"
    and c: "snd (stream_loop sample_config True sample_parse
                   (\<lambda>k b. Stream_ok sample_chunks Ends) 0 sample_user_body False []) = 1"
    by code_simp+
  from chunk_splitting_invariance [of sample_parse sample_stream sample_config True
      sample_user_body False, OF h] h v c
  show ?thesis by (simp add: sample_stream_def)
qed

section \<open>The argument of the request mutator\<close>

lemma extends_refl: "fresh_above n h \<Longrightarrow> extends n h h"
  by (simp add: extends_def)

lemma extends_trans: "extends n h h' \<Longrightarrow> extends n h' h'' \<Longrightarrow> extends n h h''"
  by (simp add: extends_def)

lemma extends_fresh: "extends n h h' \<Longrightarrow> fresh_above n h'"
  by (simp add: extends_def)

lemma extends_length: "extends n h h' \<Longrightarrow> n \<le> length h \<Longrightarrow> n \<le> length h'"
  by (simp add: extends_def)

lemma extends_alloc:
  assumes "fresh_above n h" and "n \<le> length h" and "\<forall>r \<in> refs c. n \<le> r"
    and "alloc c h = (a, h')"
  shows "extends n h h' \<and> n \<le> a"
proof -
  have a: "a = length h" and h': "h' = h @ [c]" using assms(4) by (simp_all add: alloc_def)
  have "fresh_above n (h @ [c])"
    unfolding fresh_above_def
  proof (intro allI impI)
    fix x assume x: "n \<le> x \<and> x < length (h @ [c])"
    show "\<forall>r \<in> refs ((h @ [c]) ! x). n \<le> r"
    proof (cases "x < length h")
      case True
      then show ?thesis using assms(1) x by (simp add: fresh_above_def nth_append)
    next
      case False
      then have "x = length h" using x by simp
      then show ?thesis using assms(3) by simp
    qed
  qed
  then show ?thesis using assms(2) by (simp add: extends_def a h')
qed

lemma extends_update:
  assumes "fresh_above n h" and "n \<le> a" and "\<forall>r \<in> refs c. n \<le> r"
  shows "extends n h (h[a := c])"
proof -
  have "fresh_above n (h[a := c])"
    unfolding fresh_above_def
  proof (intro allI impI)
    fix x assume x: "n \<le> x \<and> x < length (h[a := c])"
    show "\<forall>r \<in> refs (h[a := c] ! x). n \<le> r"
    proof (cases "x = a")
      case True
      then show ?thesis using assms(3) x by simp
    next
      case False
      then show ?thesis using assms(1) x by (simp add: fresh_above_def)
    qed
  qed
  then show ?thesis using assms(2) by (simp add: extends_def)
qed

lemma fresh_above_ref:
  assumes "fresh_above n h" and "n \<le> a" and "cell_at h a = Some c" and "r \<in> refs c"
  shows "n \<le> r"
  using assms by (auto simp: fresh_above_def cell_at_def split: if_splits)

lemma extends_set_text:
  assumes "fresh_above n h" and "n \<le> a"
  shows "extends n h (set_text a s h)"
proof (cases "load_part h a")
  case None
  then show ?thesis using assms(1) by (simp add: set_text_def extends_refl)
next
  case (Some p)
  then show ?thesis
    using extends_update [OF assms, of "Part_cell (p\<lparr>ptext := Some s\<rparr>)"]
    by (simp add: set_text_def)
qed

lemma extends_store_part_list:
  assumes "fresh_above n h" and "n \<le> length h" and "store_part_list ps h = (as, h')"
  shows "extends n h h' \<and> (\<forall>a \<in> set as. n \<le> a)"
  using assms
proof (induction ps arbitrary: h as h')
  case Nil
  then show ?case by (simp add: extends_refl)
next
  case (Cons p ps)
  obtain a h1 where a: "alloc (Part_cell p) h = (a, h1)" by (cases "alloc (Part_cell p) h") auto
  obtain bs h2 where b: "store_part_list ps h1 = (bs, h2)" by (cases "store_part_list ps h1") auto
  from Cons.prems(3) a b have eq: "as = a # bs" "h' = h2" by simp_all
  from extends_alloc [OF Cons.prems(1,2) _ a] have e1: "extends n h h1" "n \<le> a" by simp_all
  from Cons.IH [OF extends_fresh [OF e1(1)] extends_length [OF e1(1) Cons.prems(2)] b]
  have e2: "extends n h1 h2" "\<forall>a \<in> set bs. n \<le> a" by simp_all
  show ?case using extends_trans [OF e1(1) e2(1)] e1(2) e2(2) by (simp add: eq)
qed

lemma extends_store_parts_opt:
  assumes "fresh_above n h" and "n \<le> length h" and "store_parts_opt pso h = (pa, h')"
  shows "extends n h h' \<and> (\<forall>a \<in> set_option pa. n \<le> a)"
proof (cases pso)
  case None
  with assms show ?thesis by (simp add: store_parts_opt_def extends_refl)
next
  case (Some ps)
  obtain as h1 where s: "store_part_list ps h = (as, h1)" by (cases "store_part_list ps h") auto
  obtain a h2 where a: "alloc (Array_cell as) h1 = (a, h2)"
    by (cases "alloc (Array_cell as) h1") auto
  from assms(3) Some s a have eq: "pa = Some a" "h' = h2" by (simp_all add: store_parts_opt_def)
  from extends_store_part_list [OF assms(1,2) s]
  have e1: "extends n h h1" "\<forall>a \<in> set as. n \<le> a" by simp_all
  from extends_alloc [OF extends_fresh [OF e1(1)] extends_length [OF e1(1) assms(2)] _ a] e1(2)
  have e2: "extends n h1 h2" "n \<le> a" by simp_all
  show ?thesis using extends_trans [OF e1(1) e2(1)] e2(2) by (simp add: eq)
qed

lemma extends_store_content:
  assumes "fresh_above n h" and "n \<le> length h" and "store_content c h = (a, h')"
  shows "extends n h h' \<and> n \<le> a"
proof -
  obtain pa h1 where s: "store_parts_opt (parts c) h = (pa, h1)"
    by (cases "store_parts_opt (parts c) h") auto
  with assms(3) have a: "alloc (Content_cell (role c) pa) h1 = (a, h')"
    by (simp add: store_content_def)
  from extends_store_parts_opt [OF assms(1,2) s]
  have e1: "extends n h h1" "\<forall>a \<in> set_option pa. n \<le> a" by simp_all
  from extends_alloc [OF extends_fresh [OF e1(1)] extends_length [OF e1(1) assms(2)] _ a] e1(2)
  have e2: "extends n h1 h'" "n \<le> a" by simp_all
  show ?thesis using extends_trans [OF e1(1) e2(1)] e2(2) by simp
qed

lemma extends_store_content_list:
  assumes "fresh_above n h" and "n \<le> length h" and "store_content_list cs h = (as, h')"
  shows "extends n h h' \<and> (\<forall>a \<in> set as. n \<le> a)"
  using assms
proof (induction cs arbitrary: h as h')
  case Nil
  then show ?case by (simp add: extends_refl)
next
  case (Cons c cs)
  obtain a h1 where a: "store_content c h = (a, h1)" by (cases "store_content c h") auto
  obtain bs h2 where b: "store_content_list cs h1 = (bs, h2)"
    by (cases "store_content_list cs h1") auto
  from Cons.prems(3) a b have eq: "as = a # bs" "h' = h2" by simp_all
  from extends_store_content [OF Cons.prems(1,2) a] have e1: "extends n h h1" "n \<le> a"
    by simp_all
  from Cons.IH [OF extends_fresh [OF e1(1)] extends_length [OF e1(1) Cons.prems(2)] b]
  have e2: "extends n h1 h2" "\<forall>a \<in> set bs. n \<le> a" by simp_all
  show ?case using extends_trans [OF e1(1) e2(1)] e1(2) e2(2) by (simp add: eq)
qed

lemma extends_store_contents_opt:
  assumes "fresh_above n h" and "n \<le> length h" and "store_contents_opt cso h = (ca, h')"
  shows "extends n h h' \<and> (\<forall>a \<in> set_option ca. n \<le> a)"
proof (cases cso)
  case None
  with assms show ?thesis by (simp add: store_contents_opt_def extends_refl)
next
  case (Some cs)
  obtain as h1 where s: "store_content_list cs h = (as, h1)"
    by (cases "store_content_list cs h") auto
  obtain a h2 where a: "alloc (Array_cell as) h1 = (a, h2)"
    by (cases "alloc (Array_cell as) h1") auto
  from assms(3) Some s a have eq: "ca = Some a" "h' = h2" by (simp_all add: store_contents_opt_def)
  from extends_store_content_list [OF assms(1,2) s]
  have e1: "extends n h h1" "\<forall>a \<in> set as. n \<le> a" by simp_all
  from extends_alloc [OF extends_fresh [OF e1(1)] extends_length [OF e1(1) assms(2)] _ a] e1(2)
  have e2: "extends n h1 h2" "n \<le> a" by simp_all
  show ?thesis using extends_trans [OF e1(1) e2(1)] e2(2) by (simp add: eq)
qed

lemma extends_store_instruction_opt:
  assumes "fresh_above n h" and "n \<le> length h" and "store_instruction_opt io h = (ia, h')"
  shows "extends n h h' \<and> (\<forall>a \<in> set_option ia. n \<le> a)"
proof (cases io)
  case None
  with assms show ?thesis by (simp add: store_instruction_opt_def extends_refl)
next
  case (Some i)
  obtain pa h1 where s: "store_parts_opt (si_parts i) h = (pa, h1)"
    by (cases "store_parts_opt (si_parts i) h") auto
  obtain a h2 where a: "alloc (Instruction_cell pa) h1 = (a, h2)"
    by (cases "alloc (Instruction_cell pa) h1") auto
  from assms(3) Some s a have eq: "ia = Some a" "h' = h2"
    by (simp_all add: store_instruction_opt_def)
  from extends_store_parts_opt [OF assms(1,2) s]
  have e1: "extends n h h1" "\<forall>a \<in> set_option pa. n \<le> a" by simp_all
  from extends_alloc [OF extends_fresh [OF e1(1)] extends_length [OF e1(1) assms(2)] _ a] e1(2)
  have e2: "extends n h1 h2" "n \<le> a" by simp_all
  show ?thesis using extends_trans [OF e1(1) e2(1)] e2(2) by (simp add: eq)
qed

lemma extends_store_body:
  assumes "fresh_above n h" and "n \<le> length h" and "store_body b h = (a, h')"
  shows "extends n h h' \<and> n \<le> a"
proof -
  obtain si h1 where s1: "store_instruction_opt (systemInstruction b) h = (si, h1)"
    by (cases "store_instruction_opt (systemInstruction b) h") auto
  obtain si' h2 where s2: "store_instruction_opt (system_instruction b) h1 = (si', h2)"
    by (cases "store_instruction_opt (system_instruction b) h1") auto
  obtain cs h3 where s3: "store_contents_opt (contents b) h2 = (cs, h3)"
    by (cases "store_contents_opt (contents b) h2") auto
  from assms(3) s1 s2 s3
  have a: "alloc (Body_cell si si' cs (thinkingBudget b) (responseSchema b)) h3 = (a, h')"
    by (simp add: store_body_def)
  from extends_store_instruction_opt [OF assms(1,2) s1]
  have e1: "extends n h h1" "\<forall>a \<in> set_option si. n \<le> a" by simp_all
  note l1 = extends_length [OF e1(1) assms(2)]
  from extends_store_instruction_opt [OF extends_fresh [OF e1(1)] l1 s2]
  have e2: "extends n h1 h2" "\<forall>a \<in> set_option si'. n \<le> a" by simp_all
  note l2 = extends_length [OF e2(1) l1]
  from extends_store_contents_opt [OF extends_fresh [OF e2(1)] l2 s3]
  have e3: "extends n h2 h3" "\<forall>a \<in> set_option cs. n \<le> a" by simp_all
  note l3 = extends_length [OF e3(1) l2]
  from extends_alloc [OF extends_fresh [OF e3(1)] l3 _ a] e1(2) e2(2) e3(2)
  have e4: "extends n h3 h'" "n \<le> a" by auto
  show ?thesis
    using extends_trans [OF extends_trans [OF extends_trans [OF e1(1) e2(1)] e3(1)] e4(1)] e4(2)
    by simp
qed

lemma first_index_less: "first_index P xs = Some i \<Longrightarrow> i < length xs"
  by (induction xs arbitrary: i) (auto split: if_splits)

lemma fresh_above_refs:
  assumes "fresh_above n h" and "n \<le> a" and "cell_at h a = Some c"
  shows "\<forall>r \<in> refs c. n \<le> r"
  using fresh_above_ref [OF assms] by blast

lemma extends_normalize:
  assumes "fresh_above n h" and "n \<le> newBody"
  shows "extends n h (normalizeSystemInstruction_store newBody h)"
proof (cases "cell_at h newBody")
  case None
  then show ?thesis using assms(1) by (simp add: normalizeSystemInstruction_store_def extends_refl)
next
  case (Some c)
  note r = fresh_above_refs [OF assms Some]
  show ?thesis
  proof (cases c)
    case (Body_cell si si' cs tb rs)
    have "extends n h (h[newBody := Body_cell si None cs tb rs])"
      and "extends n h (h[newBody := Body_cell si' None cs tb rs])"
      using r Body_cell by (auto intro!: extends_update [OF assms])
    then show ?thesis
      using Some Body_cell assms(1)
      by (simp add: normalizeSystemInstruction_store_def extends_refl)
  qed (use Some assms(1) in \<open>simp_all add: normalizeSystemInstruction_store_def extends_refl\<close>)
qed

lemma extends_merge_prompt:
  assumes f: "fresh_above n h" and l: "n \<le> length h" and b: "n \<le> newBody"
  shows "extends n h (merge_prompt_store promptToInject newBody h)"
proof -
  define t where "t = length h"
  define h1 where "h1 = h @ [Part_cell (text_part promptToInject)]"
  have a: "alloc (Part_cell (text_part promptToInject)) h = (t, h1)"
    by (simp add: alloc_def t_def h1_def)
  from extends_alloc [OF f l _ a] have e1: "extends n h h1" and t: "n \<le> t" by simp_all
  note f1 = extends_fresh [OF e1]
  note l1 = extends_length [OF e1 l]
  have "extends n h1 (case cell_at h1 newBody of
             Some (Body_cell None si' cs tb rs) \<Rightarrow>
               (case alloc (Array_cell [t]) h1 of
                  (arr, h) \<Rightarrow>
                    (case alloc (Instruction_cell (Some arr)) h of
                       (i, h) \<Rightarrow> h[newBody := Body_cell (Some i) si' cs tb rs]))
           | Some (Body_cell (Some i) si' cs tb rs) \<Rightarrow>
               (case cell_at h1 i of
                  Some (Instruction_cell None) \<Rightarrow>
                    (case alloc (Array_cell [t]) h1 of
                       (arr, h) \<Rightarrow> h[i := Instruction_cell (Some arr)])
                | Some (Instruction_cell (Some arr)) \<Rightarrow>
                    (case cell_at h1 arr of
                       Some (Array_cell as) \<Rightarrow>
                         if as = [] \<or> \<not> text_truthy_at h1 (hd as)
                         then h1[arr := Array_cell (t # tl as)]
                         else set_text (hd as)
                                (text_at h1 (hd as) @ ''\<newline>\<newline>---\<newline>'' @ promptToInject) h1
                     | _ \<Rightarrow> h1)
                | _ \<Rightarrow> h1)
           | _ \<Rightarrow> h1)" (is "extends n h1 ?R")
  proof (cases "cell_at h1 newBody")
    case None
    then show ?thesis using f1 by (simp add: extends_refl)
  next
    case (Some c)
    note rb = fresh_above_refs [OF f1 b Some]
    show ?thesis
    proof (cases c)
      case (Body_cell si si' cs tb rs)
      show ?thesis
      proof (cases si)
        case None
        define h2 where "h2 = h1 @ [Array_cell [t]]"
        define h3 where "h3 = h2 @ [Instruction_cell (Some (length h1))]"
        have a2: "alloc (Array_cell [t]) h1 = (length h1, h2)"
          and a3: "alloc (Instruction_cell (Some (length h1))) h2 = (length h2, h3)"
          by (simp_all add: alloc_def h2_def h3_def)
        from extends_alloc [OF f1 l1 _ a2] t have e2: "extends n h1 h2" by simp
        from extends_alloc [OF extends_fresh [OF e2] extends_length [OF e2 l1] _ a3] l1
        have e3: "extends n h2 h3" "n \<le> length h2" by simp_all
        have e4: "extends n h3 (h3[newBody := Body_cell (Some (length h2)) si' cs tb rs])"
          using rb Body_cell e3(2) by (intro extends_update [OF extends_fresh [OF e3(1)] b]) auto
        have "?R = h3[newBody := Body_cell (Some (length h2)) si' cs tb rs]"
          using Some Body_cell None a2 a3 by simp
        then show ?thesis using extends_trans [OF extends_trans [OF e2 e3(1)] e4] by simp
      next
        case (Some i)
        have i: "n \<le> i" using rb Body_cell Some by simp
        show ?thesis
        proof (cases "cell_at h1 i")
          case None
          then show ?thesis using \<open>cell_at h1 newBody = Some c\<close> Body_cell Some f1
            by (simp add: extends_refl)
        next
          case ci: (Some d)
          note ri = fresh_above_refs [OF f1 i ci]
          show ?thesis
          proof (cases d)
            case (Instruction_cell pa)
            show ?thesis
            proof (cases pa)
              case None
              define h2 where "h2 = h1 @ [Array_cell [t]]"
              have a2: "alloc (Array_cell [t]) h1 = (length h1, h2)"
                by (simp add: alloc_def h2_def)
              from extends_alloc [OF f1 l1 _ a2] t have e2: "extends n h1 h2" by simp
              have e3: "extends n h2 (h2[i := Instruction_cell (Some (length h1))])"
                using l1 by (intro extends_update [OF extends_fresh [OF e2] i]) simp
              have "?R = h2[i := Instruction_cell (Some (length h1))]"
                using \<open>cell_at h1 newBody = Some c\<close> Body_cell Some ci Instruction_cell None a2
                by simp
              then show ?thesis using extends_trans [OF e2 e3] by simp
            next
              case pa: (Some arr)
              have arr: "n \<le> arr" using ri Instruction_cell pa by simp
              show ?thesis
              proof (cases "cell_at h1 arr")
                case None
                then show ?thesis
                  using \<open>cell_at h1 newBody = Some c\<close> Body_cell Some ci Instruction_cell pa f1
                  by (simp add: extends_refl)
              next
                case ca: (Some e)
                note ra = fresh_above_refs [OF f1 arr ca]
                show ?thesis
                proof (cases e)
                  case (Array_cell as)
                  have hd: "as \<noteq> [] \<Longrightarrow> n \<le> hd as" using ra Array_cell by simp
                  have tl: "\<forall>r \<in> set (tl as). n \<le> r"
                    using ra Array_cell by (cases as) auto
                  have u: "extends n h1 (h1[arr := Array_cell (t # tl as)])"
                    using t tl by (intro extends_update [OF f1 arr]) simp
                  have s: "as \<noteq> [] \<Longrightarrow> extends n h1 (set_text (hd as) x h1)" for x
                    using hd by (intro extends_set_text [OF f1])
                  show ?thesis
                    using \<open>cell_at h1 newBody = Some c\<close> Body_cell Some ci Instruction_cell pa ca
                      Array_cell u s
                    by auto
                qed (use \<open>cell_at h1 newBody = Some c\<close> Body_cell Some ci Instruction_cell pa ca f1
                      in \<open>simp_all add: extends_refl\<close>)
              qed
            qed
          qed (use \<open>cell_at h1 newBody = Some c\<close> Body_cell Some ci f1
                in \<open>simp_all add: extends_refl\<close>)
        qed
      qed
    qed (use Some f1 in \<open>simp_all add: extends_refl\<close>)
  qed
  moreover have "merge_prompt_store promptToInject newBody h = ?R"
    by (simp add: merge_prompt_store_def a)
  ultimately show ?thesis using extends_trans [OF e1] by simp
qed

lemma extends_mark_content:
  assumes f: "fresh_above n h" and c: "n \<le> content"
  shows "extends n h (mark_content_store injectBeginTokenPrompt injectFinishTokenPrompt content h)"
proof (cases "\<exists>r arr as. cell_at h content = Some (Content_cell r (Some arr))
                \<and> cell_at h arr = Some (Array_cell as)")
  case False
  then have "mark_content_store injectBeginTokenPrompt injectFinishTokenPrompt content h = h"
    by (auto simp: mark_content_store_def split: option.splits cell.splits)
  then show ?thesis using f by (simp add: extends_refl)
next
  case True
  then obtain r arr as where cc: "cell_at h content = Some (Content_cell r (Some arr))"
    and ca: "cell_at h arr = Some (Array_cell as)"
    by blast
  have arr: "n \<le> arr" using fresh_above_refs [OF f c cc] by simp
  have as: "\<forall>a \<in> set as. n \<le> a" using fresh_above_refs [OF f arr ca] by simp
  define h1 where "h1 =
      (if injectBeginTokenPrompt \<and> r = Some ''model'' then
         (case first_index (text_truthy_at h) as of
            None \<Rightarrow> h
          | Some i \<Rightarrow> set_text (as ! i) (BEGIN_TOKEN @ ''\<newline>'' @ text_at h (as ! i)) h)
       else h)"
  define h2 where "h2 =
      (if injectFinishTokenPrompt \<and> r = Some ''model'' then
         (case last_index (text_truthy_at h1) as of
            None \<Rightarrow> h1
          | Some i \<Rightarrow> set_text (as ! i) (text_at h1 (as ! i) @ ''\<newline>'' @ FINISHED_TOKEN) h1)
       else h1)"
  have e1: "extends n h h1"
  proof (cases "first_index (text_truthy_at h) as")
    case None
    then show ?thesis using f by (simp add: h1_def extends_refl)
  next
    case (Some i)
    then have "n \<le> as ! i" using as first_index_less [OF Some] by simp
    from extends_set_text [OF f this] Some f show ?thesis by (simp add: h1_def extends_refl)
  qed
  note f1 = extends_fresh [OF e1]
  have e2: "extends n h1 h2"
  proof (cases "last_index (text_truthy_at h1) as")
    case None
    then show ?thesis using f1 by (simp add: h2_def extends_refl)
  next
    case (Some i)
    then have "n \<le> as ! i" using as last_index_Some [OF Some] by simp
    from extends_set_text [OF f1 this] Some f1 show ?thesis by (simp add: h2_def extends_refl)
  qed
  have "mark_content_store injectBeginTokenPrompt injectFinishTokenPrompt content h = h2"
    by (simp add: mark_content_store_def cc ca Let_def h1_def [symmetric] h2_def)
  then show ?thesis using extends_trans [OF e1 e2] by simp
qed

lemma extends_mark_contents:
  assumes "fresh_above n h" and "\<forall>c \<in> set cas. n \<le> c"
  shows "extends n h
           (fold (mark_content_store injectBeginTokenPrompt injectFinishTokenPrompt) cas h)"
  using assms
proof (induction cas arbitrary: h)
  case Nil
  then show ?case by (simp add: extends_refl)
next
  case (Cons c cas)
  have e1: "extends n h (mark_content_store injectBeginTokenPrompt injectFinishTokenPrompt c h)"
    using Cons.prems by (intro extends_mark_content) simp_all
  from Cons.IH [OF extends_fresh [OF e1]] Cons.prems(2) extends_trans [OF e1]
  show ?case by simp
qed

lemma extends_add_reminder:
  assumes f: "fresh_above n h" and l: "n \<le> length h" and c: "n \<le> contentsArray"
  shows "extends n h (add_reminder_store pr cfg injectBeginTokenPrompt contentsArray h)"
proof (cases "\<exists>cas r arr as i. cell_at h contentsArray = Some (Array_cell cas) \<and> cas \<noteq> []
                \<and> cell_at h (last cas) = Some (Content_cell r (Some arr))
                \<and> cell_at h arr = Some (Array_cell as) \<and> r = Some ''user'' \<and> as \<noteq> []
                \<and> last_index (\<lambda>a. text_truthy_at h a \<and> trim_nonempty (text_at h a)) as
                    = Some i")
  case False
  then have "add_reminder_store pr cfg injectBeginTokenPrompt contentsArray h = h"
    by (auto simp: add_reminder_store_def split: option.splits cell.splits)
  then show ?thesis using f by (simp add: extends_refl)
next
  case True
  then obtain cas r arr as i where
    cc: "cell_at h contentsArray = Some (Array_cell cas)" "cas \<noteq> []"
      "cell_at h (last cas) = Some (Content_cell r (Some arr))"
      "cell_at h arr = Some (Array_cell as)" "r = Some ''user''" "as \<noteq> []"
      "last_index (\<lambda>a. text_truthy_at h a \<and> trim_nonempty (text_at h a)) as = Some i"
    by blast
  have cas: "\<forall>a \<in> set cas. n \<le> a" using fresh_above_refs [OF f c cc(1)] by simp
  then have "n \<le> last cas" using cc(2) by simp
  from fresh_above_refs [OF f this cc(3)] have arr: "n \<le> arr" by simp
  have as: "\<forall>a \<in> set as. n \<le> a" using fresh_above_refs [OF f arr cc(4)] by simp
  have i: "n \<le> as ! i" using as last_index_Some [OF cc(7)] by simp
  define h1 where
    "h1 = set_text (as ! i) (text_at h (as ! i) @ ''\<newline>\<newline>---\<newline>'' @ REMINDER_PROMPT pr) h"
  have e1: "extends n h h1" unfolding h1_def by (rule extends_set_text [OF f i])
  note f1 = extends_fresh [OF e1]
  note l1 = extends_length [OF e1 l]
  define h2 where "h2 = h1 @ [Part_cell (text_part (startOfThought cfg))]"
  define h3 where "h3 = h2 @ [Array_cell [length h1]]"
  define h4 where "h4 = h3 @ [Content_cell (Some ''model'') (Some (length h2))]"
  have a2: "alloc (Part_cell (text_part (startOfThought cfg))) h1 = (length h1, h2)"
    and a3: "alloc (Array_cell [length h1]) h2 = (length h2, h3)"
    and a4: "alloc (Content_cell (Some ''model'') (Some (length h2))) h3 = (length h3, h4)"
    by (simp_all add: alloc_def h2_def h3_def h4_def)
  from extends_alloc [OF f1 l1 _ a2] have e2: "extends n h1 h2" by simp
  note l2 = extends_length [OF e2 l1]
  from extends_alloc [OF extends_fresh [OF e2] l2 _ a3] l1 have e3: "extends n h2 h3" by simp
  note l3 = extends_length [OF e3 l2]
  from extends_alloc [OF extends_fresh [OF e3] l3 _ a4] l2 have e4: "extends n h3 h4" by simp
  have e5: "extends n h4 (h4[contentsArray := Array_cell (cas @ [length h3])])"
    using cas l3 by (intro extends_update [OF extends_fresh [OF e4] c]) auto
  have "add_reminder_store pr cfg injectBeginTokenPrompt contentsArray h =
      (if injectBeginTokenPrompt then h4[contentsArray := Array_cell (cas @ [length h3])] else h1)"
    by (simp add: add_reminder_store_def cc Let_def h1_def h2_def h3_def h4_def alloc_def)
  then show ?thesis
    using e1 extends_trans [OF extends_trans [OF extends_trans [OF extends_trans [OF e1 e2] e3] e4]
        e5]
    by simp
qed

lemma cell_at_prefix: "prefix h h' \<Longrightarrow> cell_at h a = Some c \<Longrightarrow> cell_at h' a = Some c"
  by (auto simp: prefix_def cell_at_def nth_append split: if_splits)

lemma those_map_mono:
  assumes "\<And>a x. f a = Some x \<Longrightarrow> g a = Some x" and "those (map f as) = Some xs"
  shows "those (map g as) = Some xs"
  using assms(2)
proof (induction as arbitrary: xs)
  case Nil
  then show ?case by simp
next
  case (Cons a as)
  then obtain x ys where "f a = Some x" "those (map f as) = Some ys" "xs = x # ys"
    by (auto split: option.splits)
  with Cons.IH [of ys] assms(1) [of a x] show ?case by simp
qed

lemma load_part_prefix: "prefix h h' \<Longrightarrow> load_part h a = Some p \<Longrightarrow> load_part h' a = Some p"
  using cell_at_prefix [of h h' a]
  by (auto simp: load_part_def split: option.splits cell.splits)

lemma load_parts_prefix:
  assumes "prefix h h'" and "load_parts h a = Some ps"
  shows "load_parts h' a = Some ps"
proof -
  from assms(2) obtain as where c: "cell_at h a = Some (Array_cell as)"
    and t: "those (map (load_part h) as) = Some ps"
    by (auto simp: load_parts_def split: option.splits cell.splits)
  from those_map_mono [OF load_part_prefix [OF assms(1)] t] cell_at_prefix [OF assms(1) c]
  show ?thesis by (simp add: load_parts_def)
qed

lemma load_parts_opt_prefix:
  "prefix h h' \<Longrightarrow> load_parts_opt h ao = Some x \<Longrightarrow> load_parts_opt h' ao = Some x"
  using load_parts_prefix [of h h']
  by (cases ao) (auto simp: load_parts_opt_def)

lemma load_content_prefix:
  assumes "prefix h h'" and "load_content h a = Some c"
  shows "load_content h' a = Some c"
proof -
  from assms(2) obtain r pa ps where c: "cell_at h a = Some (Content_cell r pa)"
    and t: "load_parts_opt h pa = Some ps" and eq: "c = \<lparr>role = r, parts = ps\<rparr>"
    by (auto simp: load_content_def split: option.splits cell.splits)
  from load_parts_opt_prefix [OF assms(1) t] cell_at_prefix [OF assms(1) c]
  show ?thesis by (simp add: load_content_def eq)
qed

lemma load_contents_opt_prefix:
  assumes "prefix h h'" and "load_contents_opt h ao = Some x"
  shows "load_contents_opt h' ao = Some x"
proof (cases ao)
  case None
  with assms(2) show ?thesis by (simp add: load_contents_opt_def)
next
  case (Some a)
  with assms(2) obtain as cs where c: "cell_at h a = Some (Array_cell as)"
    and t: "those (map (load_content h) as) = Some cs" and eq: "x = Some cs"
    by (auto simp: load_contents_opt_def split: option.splits cell.splits)
  from those_map_mono [OF load_content_prefix [OF assms(1)] t] cell_at_prefix [OF assms(1) c]
  show ?thesis by (simp add: load_contents_opt_def Some eq)
qed

lemma load_instruction_opt_prefix:
  assumes "prefix h h'" and "load_instruction_opt h ao = Some x"
  shows "load_instruction_opt h' ao = Some x"
proof (cases ao)
  case None
  with assms(2) show ?thesis by (simp add: load_instruction_opt_def)
next
  case (Some a)
  with assms(2) obtain pa ps where c: "cell_at h a = Some (Instruction_cell pa)"
    and t: "load_parts_opt h pa = Some ps" and eq: "x = Some \<lparr>si_parts = ps\<rparr>"
    by (auto simp: load_instruction_opt_def split: option.splits cell.splits)
  from load_parts_opt_prefix [OF assms(1) t] cell_at_prefix [OF assms(1) c]
  show ?thesis by (simp add: load_instruction_opt_def Some eq)
qed

lemma load_body_prefix:
  assumes "prefix h h'" and "load_body h a = Some b"
  shows "load_body h' a = Some b"
proof -
  from assms(2) obtain si si' cs tb rs i i' c where
    c: "cell_at h a = Some (Body_cell si si' cs tb rs)"
    and l: "load_instruction_opt h si = Some i" "load_instruction_opt h si' = Some i'"
      "load_contents_opt h cs = Some c"
    and eq: "b = \<lparr>systemInstruction = i, system_instruction = i', contents = c,
                  thinkingBudget = tb, responseSchema = rs\<rparr>"
    by (auto simp: load_body_def split: option.splits cell.splits)
  from load_instruction_opt_prefix [OF assms(1) l(1)] load_instruction_opt_prefix [OF assms(1) l(2)]
    load_contents_opt_prefix [OF assms(1) l(3)] cell_at_prefix [OF assms(1) c]
  show ?thesis by (simp add: load_body_def eq)
qed

lemma injectSystemPrompts_store_extends:
  assumes b: "load_body h body = Some b"
  shows "\<exists>newBody h'.
           injectSystemPrompts_store pr body cfg injectBeginTokenPrompt injectFinishTokenPrompt h
             = Some (newBody, h')
           \<and> extends (length h) h h' \<and> length h \<le> newBody"
proof -
  define n where "n = length h"
  have f: "fresh_above n h" by (simp add: fresh_above_def n_def)
  have l: "n \<le> length h" by (simp add: n_def)
  obtain nb h0 where s: "store_body b h = (nb, h0)" by (cases "store_body b h") auto
  from extends_store_body [OF f l s] have e0: "extends n h h0" and nb: "n \<le> nb" by simp_all
  define h1 where "h1 = normalizeSystemInstruction_store nb h0"
  have e1: "extends n h0 h1"
    unfolding h1_def by (rule extends_normalize [OF extends_fresh [OF e0] nb])
  note e01 = extends_trans [OF e0 e1]
  define promptToInject where "promptToInject =
      (if injectBeginTokenPrompt \<and> injectFinishTokenPrompt
       then BEGIN_TOKEN_PROMPT pr @ FINISH_TOKEN_PROMPT pr
       else if injectBeginTokenPrompt then BEGIN_TOKEN_PROMPT pr
       else if injectFinishTokenPrompt then FINISH_TOKEN_PROMPT pr
       else [])"
  define h2 where "h2 = merge_prompt_store promptToInject nb h1"
  have e2: "extends n h1 h2"
    unfolding h2_def
    by (rule extends_merge_prompt [OF extends_fresh [OF e01] extends_length [OF e01 l] nb])
  note e02 = extends_trans [OF e01 e2]
  note f2 = extends_fresh [OF e02]
  note l2 = extends_length [OF e02 l]
  have run: "injectSystemPrompts_store pr body cfg injectBeginTokenPrompt injectFinishTokenPrompt h =
      (if promptToInject = [] then Some (nb, h1)
       else
         case cell_at h2 nb of
           Some (Body_cell si si' (Some contentsArray) tb rs) \<Rightarrow>
             (case cell_at h2 contentsArray of
                Some (Array_cell cas) \<Rightarrow>
                  Some (nb,
                        add_reminder_store pr cfg injectBeginTokenPrompt contentsArray
                          (fold (mark_content_store injectBeginTokenPrompt
                                   injectFinishTokenPrompt) cas h2))
              | _ \<Rightarrow> Some (nb, h2))
         | _ \<Rightarrow> Some (nb, h2))"
    unfolding injectSystemPrompts_store_def structuredClone_def b h2_def h1_def promptToInject_def
    by (simp add: s Let_def)
  show ?thesis
  proof (cases "promptToInject = []")
    case True
    with run e01 nb show ?thesis by (simp add: n_def)
  next
    case False
    show ?thesis
    proof (cases "\<exists>si si' contentsArray tb rs cas.
        cell_at h2 nb = Some (Body_cell si si' (Some contentsArray) tb rs)
        \<and> cell_at h2 contentsArray = Some (Array_cell cas)")
      case no: False
      then have "injectSystemPrompts_store pr body cfg injectBeginTokenPrompt
          injectFinishTokenPrompt h = Some (nb, h2)"
        unfolding run using False by (auto split: option.splits cell.splits)
      with e02 nb show ?thesis by (simp add: n_def)
    next
      case True
      then obtain si si' contentsArray tb rs cas where
        c: "cell_at h2 nb = Some (Body_cell si si' (Some contentsArray) tb rs)"
          "cell_at h2 contentsArray = Some (Array_cell cas)"
        by blast
      have ca: "n \<le> contentsArray" using fresh_above_refs [OF f2 nb c(1)] by simp
      have cas: "\<forall>a \<in> set cas. n \<le> a" using fresh_above_refs [OF f2 ca c(2)] by simp
      define h3 where
        "h3 = fold (mark_content_store injectBeginTokenPrompt injectFinishTokenPrompt) cas h2"
      have e3: "extends n h2 h3" unfolding h3_def by (rule extends_mark_contents [OF f2 cas])
      note e03 = extends_trans [OF e02 e3]
      have e4: "extends n h3 (add_reminder_store pr cfg injectBeginTokenPrompt contentsArray h3)"
        by (rule extends_add_reminder [OF extends_fresh [OF e03] extends_length [OF e03 l] ca])
      have "injectSystemPrompts_store pr body cfg injectBeginTokenPrompt
          injectFinishTokenPrompt h =
          Some (nb, add_reminder_store pr cfg injectBeginTokenPrompt contentsArray h3)"
        unfolding run using False c by (simp add: h3_def)
      with extends_trans [OF e03 e4] nb show ?thesis by (simp add: n_def)
    qed
  qed
qed

text \<open>
  C9. \<^verbatim>\<open>injectSystemPrompts\<close> does not change the object it is given. Called with the
  address of a request body in any store, and with any flags, it returns the address of a
  body that lies in cells created by the call; every cell that existed before the call is
  as it was, so the argument is the same body after the call as before; and the cells
  created by the call refer to no cell that existed before, so what the call modifies is
  its own deep copy.
\<close>

theorem injectSystemPrompts_leaves_argument:
  assumes "load_body h body = Some b"
  shows "\<exists>newBody h'.
           injectSystemPrompts_store pr body cfg injectBeginTokenPrompt injectFinishTokenPrompt h
             = Some (newBody, h')
           \<and> take (length h) h' = h
           \<and> load_body h' body = Some b
           \<and> length h \<le> newBody
           \<and> fresh_above (length h) h'"
proof -
  from injectSystemPrompts_store_extends [OF assms] obtain newBody h' where
    r: "injectSystemPrompts_store pr body cfg injectBeginTokenPrompt injectFinishTokenPrompt h
          = Some (newBody, h')"
    and x: "extends (length h) h h'" "length h \<le> newBody"
    by blast
  from x have e: "fresh_above (length h) h'" "take (length h) h' = h"
    by (simp_all add: extends_def)
  from e(2) have "prefix h h'" by (metis take_is_prefix)
  from load_body_prefix [OF this assms] r e x(2) show ?thesis by simp
qed

theorem injectSystemPrompts_leaves_argument_witness:
  "load_body sample_store sample_address = Some sample_chat_body
   \<and> (\<exists>newBody h'.
         injectSystemPrompts_store sample_prompts sample_address sample_config True True
           sample_store = Some (newBody, h')
         \<and> take (length sample_store) h' = sample_store
         \<and> load_body h' sample_address = Some sample_chat_body
         \<and> length sample_store \<le> newBody
         \<and> fresh_above (length sample_store) h'
         \<and> load_body h' newBody =
             Some (injectSystemPrompts sample_prompts sample_chat_body sample_config True True)
         \<and> load_body h' newBody \<noteq> load_body h' sample_address)"
proof -
  have h: "load_body sample_store sample_address = Some sample_chat_body"
    by code_simp
  have v: "map_option (\<lambda>(newBody, h'). load_body h' newBody)
             (injectSystemPrompts_store sample_prompts sample_address sample_config True True
                sample_store) =
           Some (Some (injectSystemPrompts sample_prompts sample_chat_body sample_config True True))"
    and d: "injectSystemPrompts sample_prompts sample_chat_body sample_config True True
             \<noteq> sample_chat_body"
    by code_simp+
  from injectSystemPrompts_leaves_argument [OF h, of sample_prompts sample_config True True]
  obtain newBody h' where
    r: "injectSystemPrompts_store sample_prompts sample_address sample_config True True
          sample_store = Some (newBody, h')"
      "take (length sample_store) h' = sample_store"
      "load_body h' sample_address = Some sample_chat_body"
      "length sample_store \<le> newBody"
      "fresh_above (length sample_store) h'"
    by blast
  from v r(1) have "load_body h' newBody =
      Some (injectSystemPrompts sample_prompts sample_chat_body sample_config True True)"
    by simp
  with h r d show ?thesis by (intro conjI exI [of _ newBody] exI [of _ h']) simp_all
qed

section \<open>Texts free of the tokens\<close>


























section \<open>The non-streaming loop on a marked upstream\<close>







section \<open>The lines of a marked attempt\<close>



























section \<open>The events an attempt writes\<close>














section \<open>Tokens in the text sent to the caller\<close>




end
